theory Spec2Isabelle
  imports Main
begin

section \<open>Faults\<close>

text \<open>
  The program is C. Two ways of leaving the defined behaviour are branches of the model:
  \<^item> \<open>EmptyDequeue\<close>: \<^verbatim>\<open>circular_buffer_dequeue\<close> called with \<^verbatim>\<open>size == 0\<close>, where the
    source executes \<^verbatim>\<open>raise(SIGSEGV)\<close>;
  \<^item> \<open>OutOfBounds\<close>: an array read or written outside its extent (undefined behaviour).

  C \<^verbatim>\<open>int\<close> values are modelled by \<open>int\<close> and \<^verbatim>\<open>size_t\<close> values by \<open>nat\<close>: every number the
  program computes is bounded by the number of cities and routes of the input, far from
  the width of the machine types. \<^verbatim>\<open>malloc\<close> and \<^verbatim>\<open>calloc\<close> are taken to succeed.
\<close>

datatype fault = EmptyDequeue | OutOfBounds

section \<open>The circular buffer\<close>

text \<open>
  \<^verbatim>\<open>struct circular_buffer\<close> with its fields \<^verbatim>\<open>capacity\<close>, \<^verbatim>\<open>start\<close>, \<^verbatim>\<open>size\<close>, \<^verbatim>\<open>elements\<close>
  (prefixed with \<open>b_\<close>, since the graph has fields of the same names).
\<close>

record circular_buffer =
  b_capacity :: nat
  b_start :: nat
  b_size :: nat
  b_elements :: "int list"

definition DEFAULT_CAPACITY :: nat where
  "DEFAULT_CAPACITY = 128"

definition IMPOSSIBLE :: int where
  "IMPOSSIBLE = - 1"

text \<open>\<^verbatim>\<open>calloc(n, sizeof(int))\<close>: a fresh array of \<open>n\<close> zeros.\<close>

definition calloc :: "nat \<Rightarrow> int list" where
  "calloc n = replicate n 0"

text \<open>\<^verbatim>\<open>memcpy(&dst[off], src, n * sizeof(int))\<close>.\<close>

definition memcpy :: "int list \<Rightarrow> nat \<Rightarrow> int list \<Rightarrow> nat \<Rightarrow> int list" where
  "memcpy dst off src n = take off dst @ take n src @ drop (off + n) dst"

definition make_circular_buffer :: "nat \<Rightarrow> circular_buffer option" where
  "make_circular_buffer capacity =
     (if capacity = 0 then None
      else Some \<lparr>b_capacity = capacity, b_start = 0, b_size = 0, b_elements = calloc capacity\<rparr>)"

definition circular_buffer_enqueue :: "circular_buffer \<Rightarrow> int \<Rightarrow> circular_buffer" where
  "circular_buffer_enqueue buffer element =
     (let buffer' =
            (if b_capacity buffer = b_size buffer
             then let space = calloc (b_capacity buffer * 2);
                      space = memcpy space 0 (b_elements buffer) (b_capacity buffer);
                      space = memcpy space (b_capacity buffer) (b_elements buffer) (b_capacity buffer)
                  in buffer\<lparr>b_capacity := b_capacity buffer * 2, b_elements := space\<rparr>
             else buffer);
          index = (b_start buffer' + b_size buffer') mod b_capacity buffer'
      in buffer'\<lparr>b_elements := (b_elements buffer')[index := element],
                 b_size := b_size buffer' + 1\<rparr>)"

definition circular_buffer_dequeue :: "circular_buffer \<Rightarrow> fault + (int \<times> circular_buffer)" where
  "circular_buffer_dequeue buffer =
     (if b_size buffer = 0 then Inl EmptyDequeue
      else let index = b_start buffer mod b_capacity buffer;
               item = b_elements buffer ! index
           in Inr (item, buffer\<lparr>b_size := b_size buffer - 1,
                                 b_start := (b_start buffer + 1) mod b_capacity buffer\<rparr>))"

subsection \<open>Running a sequence of queue operations\<close>

datatype queue_op = Enqueue int | Dequeue

text \<open>The values handed out by the dequeues of a sequence of operations, in order.\<close>

fun run_ops :: "circular_buffer \<Rightarrow> queue_op list \<Rightarrow> fault + int list" where
  "run_ops buffer [] = Inr []"
| "run_ops buffer (Enqueue x # ops) = run_ops (circular_buffer_enqueue buffer x) ops"
| "run_ops buffer (Dequeue # ops) =
     (case circular_buffer_dequeue buffer of
        Inl f \<Rightarrow> Inl f
      | Inr (item, buffer') \<Rightarrow>
          (case run_ops buffer' ops of Inl f \<Rightarrow> Inl f | Inr items \<Rightarrow> Inr (item # items)))"

text \<open>
  The specification's queue: a first-in first-out list, enqueue at the back, dequeue from
  the front.
\<close>

fun fifo_ops :: "int list \<Rightarrow> queue_op list \<Rightarrow> fault + int list" where
  "fifo_ops q [] = Inr []"
| "fifo_ops q (Enqueue x # ops) = fifo_ops (q @ [x]) ops"
| "fifo_ops q (Dequeue # ops) =
     (case q of
        [] \<Rightarrow> Inl EmptyDequeue
      | item # q' \<Rightarrow>
          (case fifo_ops q' ops of Inl f \<Rightarrow> Inl f | Inr items \<Rightarrow> Inr (item # items)))"

subsection \<open>Abstraction of a buffer to its logical contents\<close>

definition contents :: "circular_buffer \<Rightarrow> int list" where
  "contents buffer =
     map (\<lambda>i. b_elements buffer ! ((b_start buffer + i) mod b_capacity buffer)) [0..<b_size buffer]"

definition buffer_ok :: "circular_buffer \<Rightarrow> bool" where
  "buffer_ok buffer \<longleftrightarrow>
     0 < b_capacity buffer \<and> length (b_elements buffer) = b_capacity buffer \<and>
     b_size buffer \<le> b_capacity buffer \<and> b_start buffer < b_capacity buffer"


section \<open>Checked array accesses\<close>

text \<open>
  The fixed-size global arrays of \<^verbatim>\<open>main.c\<close> are functions from indices to values together
  with their declared length; the heap arrays of the dynamic variant are lists. An index
  is a C \<^verbatim>\<open>int\<close>; an access outside the array is the fault \<open>OutOfBounds\<close>.
\<close>

definition bind_fault :: "fault + 'a \<Rightarrow> ('a \<Rightarrow> fault + 'b) \<Rightarrow> fault + 'b" where
  "bind_fault m f = (case m of Inl e \<Rightarrow> Inl e | Inr x \<Rightarrow> f x)"

definition array_get :: "int \<Rightarrow> (nat \<Rightarrow> 'a) \<Rightarrow> int \<Rightarrow> fault + 'a" where
  "array_get bound a i = (if 0 \<le> i \<and> i < bound then Inr (a (nat i)) else Inl OutOfBounds)"

definition array_set :: "int \<Rightarrow> (nat \<Rightarrow> 'a) \<Rightarrow> int \<Rightarrow> 'a \<Rightarrow> fault + (nat \<Rightarrow> 'a)" where
  "array_set bound a i v =
     (if 0 \<le> i \<and> i < bound then Inr (a(nat i := v)) else Inl OutOfBounds)"

definition list_get :: "'a list \<Rightarrow> int \<Rightarrow> fault + 'a" where
  "list_get xs i = (if 0 \<le> i \<and> nat i < length xs then Inr (xs ! nat i) else Inl OutOfBounds)"

definition list_set :: "'a list \<Rightarrow> int \<Rightarrow> 'a \<Rightarrow> fault + 'a list" where
  "list_set xs i v =
     (if 0 \<le> i \<and> nat i < length xs then Inr (xs[nat i := v]) else Inl OutOfBounds)"

section \<open>The level-marker breadth-first search\<close>

text \<open>
  Both source files contain the same \<^verbatim>\<open>solve\<close>, up to the expressions that read the degree
  of a city and its \<open>i\<close>-th neighbour. The model has one search, \<open>solve_generic\<close>, over
  these two accessors (\<open>deg\<close> and \<open>nb\<close>) and the length of the \<^verbatim>\<open>visited\<close> array, and
  instantiates it once per file.

  The local variables of \<^verbatim>\<open>solve\<close> that live across iterations of the \<^verbatim>\<open>while\<close> loop:
\<close>

record solve_state =
  queue :: circular_buffer
  distance :: int
  visited :: "bool list"

text \<open>
  The state when the \<^verbatim>\<open>while\<close> loop is entered: \<^verbatim>\<open>distance = 1\<close>, \<^verbatim>\<open>visited\<close> zeroed by
  \<^verbatim>\<open>memset\<close>, and \<^verbatim>\<open>from\<close> enqueued.
\<close>

definition solve_init :: "circular_buffer \<Rightarrow> nat \<Rightarrow> int \<Rightarrow> solve_state" where
  "solve_init q gsize from =
     \<lparr>queue = circular_buffer_enqueue q from, distance = 1, visited = replicate gsize False\<rparr>"

text \<open>
  The \<^verbatim>\<open>for\<close> loop over the neighbours of \<^verbatim>\<open>head\<close>; \<open>nb i\<close> is the \<open>i\<close>-th neighbour and the
  list holds the remaining values of the loop counter.
\<close>

fun visit_neighbours ::
  "(int \<Rightarrow> fault + int) \<Rightarrow> nat list \<Rightarrow> circular_buffer \<times> bool list \<Rightarrow>
   fault + circular_buffer \<times> bool list" where
  "visit_neighbours nb [] (q, vis) = Inr (q, vis)"
| "visit_neighbours nb (i # is) (q, vis) =
     (case nb (int i) of
        Inl f \<Rightarrow> Inl f
      | Inr city \<Rightarrow>
          (if 0 \<le> city \<and> nat city < length vis
           then (if \<not> vis ! nat city
                 then visit_neighbours nb is
                        (circular_buffer_enqueue q city, vis[nat city := True])
                 else visit_neighbours nb is (q, vis))
           else Inl OutOfBounds))"

text \<open>One iteration of the \<^verbatim>\<open>while\<close> loop: it returns from \<^verbatim>\<open>solve\<close> or goes on.\<close>

datatype progress = Return int | Continue solve_state

definition solve_body ::
  "(int \<Rightarrow> fault + int) \<Rightarrow> (int \<Rightarrow> int \<Rightarrow> fault + int) \<Rightarrow> int \<Rightarrow> solve_state \<Rightarrow>
   fault + progress" where
  "solve_body deg nb until st =
     (case circular_buffer_dequeue (queue st) of
        Inl f \<Rightarrow> Inl f
      | Inr (head, q) \<Rightarrow>
          (if head < 0 then Inr (Continue (st\<lparr>queue := q, distance := - head\<rparr>))
           else if head = until then Inr (Return (distance st - 1))
           else (case deg head of
                   Inl f \<Rightarrow> Inl f
                 | Inr d \<Rightarrow>
                     (let q = (if d > 0 then circular_buffer_enqueue q (- distance st - 1)
                               else q)
                      in (case visit_neighbours (nb head) [0..<nat d] (q, visited st) of
                            Inl f \<Rightarrow> Inl f
                          | Inr (q, vis) \<Rightarrow>
                              Inr (Continue (st\<lparr>queue := q, visited := vis\<rparr>)))))))"

text \<open>
  The \<^verbatim>\<open>while (queue->size > 0)\<close> loop. \<open>None\<close> is a loop that never ends,
  \<open>Some (Inl f)\<close> a fault, \<open>Some (Inr r)\<close> the return value \<open>r\<close> of \<^verbatim>\<open>solve\<close>.
\<close>

partial_function (option) solve_loop ::
  "(int \<Rightarrow> fault + int) \<Rightarrow> (int \<Rightarrow> int \<Rightarrow> fault + int) \<Rightarrow> int \<Rightarrow> solve_state \<Rightarrow>
   (fault + int) option" where
  "solve_loop deg nb until st =
     (if b_size (queue st) > 0
      then (case solve_body deg nb until st of
              Inl f \<Rightarrow> Some (Inl f)
            | Inr (Return r) \<Rightarrow> Some (Inr r)
            | Inr (Continue st') \<Rightarrow> solve_loop deg nb until st')
      else Some (Inr IMPOSSIBLE))"

definition solve_generic ::
  "(int \<Rightarrow> fault + int) \<Rightarrow> (int \<Rightarrow> int \<Rightarrow> fault + int) \<Rightarrow> nat \<Rightarrow> int \<Rightarrow> int \<Rightarrow>
   (fault + int) option" where
  "solve_generic deg nb gsize from until =
     (case make_circular_buffer DEFAULT_CAPACITY of
        None \<Rightarrow> Some (Inr IMPOSSIBLE)
      | Some q \<Rightarrow> solve_loop deg nb until (solve_init q gsize from))"

section \<open>Printing the result\<close>

definition digit_char :: "nat \<Rightarrow> char" where
  "digit_char d = ''0123456789'' ! d"

fun digits :: "nat \<Rightarrow> string" where
  "digits n = (if n < 10 then [digit_char n] else digits (n div 10) @ [digit_char (n mod 10)])"

text \<open>\<^verbatim>\<open>printf("%d\n", result)\<close> and \<^verbatim>\<open>printf("Impossible\n")\<close>.\<close>

definition printf_d :: "int \<Rightarrow> string" where
  "printf_d i = (if i < 0 then CHR ''-'' # digits (nat (- i)) else digits (nat i)) @ [CHR 0x0A]"

definition print_result :: "int \<Rightarrow> string" where
  "print_result result =
     (if result = IMPOSSIBLE then ''Impossible'' @ [CHR 0x0A] else printf_d result)"

definition report :: "(fault + int) option \<Rightarrow> (fault + string) option" where
  "report r = map_option (map_sum id print_result) r"


section \<open>The flat-array program (\<^verbatim>\<open>main.c\<close>)\<close>

definition MAX_CITIES :: int where
  "MAX_CITIES = 100000 + 1"

definition MAX_ROUTES :: int where
  "MAX_ROUTES = 100000 + MAX_CITIES"

text \<open>
  \<^verbatim>\<open>struct graph\<close> of \<^verbatim>\<open>main.c\<close>: \<^verbatim>\<open>size\<close>, \<^verbatim>\<open>degrees[MAX_CITIES + 1]\<close>,
  \<^verbatim>\<open>start[MAX_CITIES + 1]\<close> and \<^verbatim>\<open>neighbours[2 * MAX_ROUTES]\<close>. The one global instance
  starts zeroed. City \<open>0\<close> is the hub; the cities of the input keep their numbers \<open>1..n\<close>.
\<close>

record graph =
  f_size :: nat
  f_degrees :: "nat \<Rightarrow> int"
  f_start :: "nat \<Rightarrow> int"
  f_neighbours :: "nat \<Rightarrow> int"

definition zero_graph :: graph where
  "zero_graph = \<lparr>f_size = 0, f_degrees = (\<lambda>_. 0), f_start = (\<lambda>_. 0), f_neighbours = (\<lambda>_. 0)\<rparr>"

text \<open>\<^verbatim>\<open>graph.degrees[city]++\<close>.\<close>

definition incr_degree :: "graph \<Rightarrow> int \<Rightarrow> fault + graph" where
  "incr_degree g city =
     bind_fault (array_get (MAX_CITIES + 1) (f_degrees g) city) (\<lambda>d.
     bind_fault (array_set (MAX_CITIES + 1) (f_degrees g) city (d + 1)) (\<lambda>ds.
     Inr (g\<lparr>f_degrees := ds\<rparr>)))"

text \<open>First pass: the loop that reads the airports, then the loop that reads the routes.\<close>

fun count_airports :: "int list \<Rightarrow> graph \<Rightarrow> fault + graph" where
  "count_airports [] g = Inr g"
| "count_airports (city # rest) g =
     bind_fault (incr_degree g 0) (\<lambda>g.
     bind_fault (incr_degree g city) (\<lambda>g.
     count_airports rest g))"

fun count_edges :: "(int \<times> int) list \<Rightarrow> graph \<Rightarrow> fault + graph" where
  "count_edges [] g = Inr g"
| "count_edges ((a, b) # rest) g =
     bind_fault (incr_degree g a) (\<lambda>g.
     bind_fault (incr_degree g b) (\<lambda>g.
     count_edges rest g))"

text \<open>
  The offsets: \<^verbatim>\<open>for (int i = 0; i < n + 2; i++)\<close>, with the running \<^verbatim>\<open>start\<close>; the list
  holds the remaining values of \<open>i\<close>.
\<close>

fun compute_offsets :: "nat list \<Rightarrow> int \<Rightarrow> graph \<Rightarrow> fault + graph" where
  "compute_offsets [] start g = Inr g"
| "compute_offsets (i # is) start g =
     bind_fault (array_set (MAX_CITIES + 1) (f_start g) (int i) start) (\<lambda>st.
     bind_fault (array_get (MAX_CITIES + 1) (f_degrees g) (int i)) (\<lambda>d.
     bind_fault (array_set (MAX_CITIES + 1) (f_degrees g) (int i) 0) (\<lambda>ds.
     compute_offsets is (start + d) (g\<lparr>f_start := st, f_degrees := ds\<rparr>))))"

text \<open>
  Second pass, one route or one airport link: the two indices are computed first, then the
  two slots are written, then the two cursors advance.
\<close>

definition insert_edge :: "graph \<Rightarrow> int \<Rightarrow> int \<Rightarrow> fault + graph" where
  "insert_edge g from to =
     bind_fault (array_get (MAX_CITIES + 1) (f_start g) from) (\<lambda>sf.
     bind_fault (array_get (MAX_CITIES + 1) (f_degrees g) from) (\<lambda>df.
     bind_fault (array_get (MAX_CITIES + 1) (f_start g) to) (\<lambda>st.
     bind_fault (array_get (MAX_CITIES + 1) (f_degrees g) to) (\<lambda>dt.
     bind_fault (array_set (2 * MAX_ROUTES) (f_neighbours g) (sf + df) to) (\<lambda>ns.
     bind_fault (array_set (2 * MAX_ROUTES) ns (st + dt) from) (\<lambda>ns.
     bind_fault (incr_degree (g\<lparr>f_neighbours := ns\<rparr>) from) (\<lambda>g.
     incr_degree g to)))))))"

fun insert_edges :: "(int \<times> int) list \<Rightarrow> graph \<Rightarrow> fault + graph" where
  "insert_edges [] g = Inr g"
| "insert_edges ((a, b) # rest) g = bind_fault (insert_edge g a b) (insert_edges rest)"

fun insert_airports :: "int list \<Rightarrow> graph \<Rightarrow> fault + graph" where
  "insert_airports [] g = Inr g"
| "insert_airports (airport # rest) g = bind_fault (insert_edge g 0 airport) (insert_airports rest)"

text \<open>
  The graph that \<^verbatim>\<open>main\<close> has built when it calls \<^verbatim>\<open>solve\<close>, from \<open>n\<close>, the airports and the
  routes of the input (\<open>k\<close> and \<open>m\<close> are the lengths of the two lists).
\<close>

definition build_graph :: "int \<Rightarrow> int list \<Rightarrow> (int \<times> int) list \<Rightarrow> fault + graph" where
  "build_graph n airports edges =
     bind_fault (count_airports airports (zero_graph\<lparr>f_size := nat (n + 1)\<rparr>)) (\<lambda>g.
     bind_fault (count_edges edges g) (\<lambda>g.
     bind_fault (compute_offsets [0..<nat (n + 2)] 0 g) (\<lambda>g.
     bind_fault (insert_edges edges g) (\<lambda>g.
     insert_airports airports g))))"

definition degree_flat :: "graph \<Rightarrow> int \<Rightarrow> fault + int" where
  "degree_flat g head = array_get (MAX_CITIES + 1) (f_degrees g) head"

definition neighbour_flat :: "graph \<Rightarrow> int \<Rightarrow> int \<Rightarrow> fault + int" where
  "neighbour_flat g head i =
     bind_fault (array_get (MAX_CITIES + 1) (f_start g) head) (\<lambda>s.
     array_get (2 * MAX_ROUTES) (f_neighbours g) (s + i))"

definition solve :: "graph \<Rightarrow> int \<Rightarrow> int \<Rightarrow> (fault + int) option" where
  "solve g from until = solve_generic (degree_flat g) (neighbour_flat g) (f_size g) from until"

text \<open>
  \<^verbatim>\<open>main\<close> of \<^verbatim>\<open>main.c\<close> on the integers that \<^verbatim>\<open>scan_int\<close> delivers: what it writes to the
  standard output.
\<close>

definition main_flat ::
  "int \<Rightarrow> int \<Rightarrow> int \<Rightarrow> int list \<Rightarrow> (int \<times> int) list \<Rightarrow> (fault + string) option" where
  "main_flat n s t airports edges =
     (case build_graph n airports edges of
        Inl f \<Rightarrow> Some (Inl f)
      | Inr g \<Rightarrow> report (solve g s t))"

section \<open>The adjacency-list program (the second source file)\<close>

text \<open>
  \<^verbatim>\<open>struct graph\<close> of the dynamic variant: \<^verbatim>\<open>size\<close>, \<^verbatim>\<open>capacity\<close>, \<^verbatim>\<open>degree\<close> and one heap
  array of neighbours per city. Cities are \<open>0..n-1\<close> and the hub is \<open>size - 1\<close>.
\<close>

record graph_dyn =
  d_size :: nat
  d_capacity :: "int list"
  d_degree :: "int list"
  d_neighbours :: "int list list"

definition make_graph :: "nat \<Rightarrow> graph_dyn" where
  "make_graph sz =
     \<lparr>d_size = sz, d_capacity = replicate sz (int DEFAULT_CAPACITY),
      d_degree = replicate sz 0, d_neighbours = replicate sz (calloc DEFAULT_CAPACITY)\<rparr>"

text \<open>
  \<^verbatim>\<open>realloc(p, n * sizeof(int))\<close> keeps the old contents; the added slots are
  indeterminate, and hold the value \<open>junk\<close>, a parameter of the model.
\<close>

definition realloc :: "int \<Rightarrow> int list \<Rightarrow> nat \<Rightarrow> int list" where
  "realloc junk xs n = take n xs @ replicate (n - length xs) junk"

definition graph_ensure_capacity :: "int \<Rightarrow> graph_dyn \<Rightarrow> int \<Rightarrow> fault + graph_dyn" where
  "graph_ensure_capacity junk g city =
     bind_fault (list_get (d_capacity g) city) (\<lambda>c.
     bind_fault (list_get (d_degree g) city) (\<lambda>d.
     if c = d
     then bind_fault (list_get (d_neighbours g) city) (\<lambda>row.
          bind_fault (list_set (d_neighbours g) city (realloc junk row (nat (c * 2)))) (\<lambda>ns.
          bind_fault (list_set (d_capacity g) city (c * 2)) (\<lambda>cs.
          Inr (g\<lparr>d_neighbours := ns, d_capacity := cs\<rparr>))))
     else Inr g))"

text \<open>\<^verbatim>\<open>graph->neighbours[city][graph->degree[city]] = other\<close>.\<close>

definition put_neighbour :: "graph_dyn \<Rightarrow> int \<Rightarrow> int \<Rightarrow> fault + graph_dyn" where
  "put_neighbour g city other =
     bind_fault (list_get (d_degree g) city) (\<lambda>d.
     bind_fault (list_get (d_neighbours g) city) (\<lambda>row.
     bind_fault (list_set row d other) (\<lambda>row.
     bind_fault (list_set (d_neighbours g) city row) (\<lambda>ns.
     Inr (g\<lparr>d_neighbours := ns\<rparr>)))))"

text \<open>\<^verbatim>\<open>graph->degree[city]++\<close>.\<close>

definition incr_degree_dyn :: "graph_dyn \<Rightarrow> int \<Rightarrow> fault + graph_dyn" where
  "incr_degree_dyn g city =
     bind_fault (list_get (d_degree g) city) (\<lambda>d.
     bind_fault (list_set (d_degree g) city (d + 1)) (\<lambda>ds.
     Inr (g\<lparr>d_degree := ds\<rparr>)))"

definition graph_add_railway :: "int \<Rightarrow> graph_dyn \<Rightarrow> int \<Rightarrow> int \<Rightarrow> fault + graph_dyn" where
  "graph_add_railway junk g from until =
     bind_fault (graph_ensure_capacity junk g from) (\<lambda>g.
     bind_fault (graph_ensure_capacity junk g until) (\<lambda>g.
     bind_fault (put_neighbour g from until) (\<lambda>g.
     bind_fault (put_neighbour g until from) (\<lambda>g.
     bind_fault (incr_degree_dyn g from) (\<lambda>g.
     incr_degree_dyn g until)))))"

definition graph_add_airport :: "int \<Rightarrow> graph_dyn \<Rightarrow> int \<Rightarrow> fault + graph_dyn" where
  "graph_add_airport junk g city = graph_add_railway junk g city (int (d_size g) - 1)"

fun add_airports :: "int \<Rightarrow> int list \<Rightarrow> graph_dyn \<Rightarrow> fault + graph_dyn" where
  "add_airports junk [] g = Inr g"
| "add_airports junk (tmp # rest) g =
     bind_fault (graph_add_airport junk g (tmp - 1)) (add_airports junk rest)"

fun add_railways :: "int \<Rightarrow> (int \<times> int) list \<Rightarrow> graph_dyn \<Rightarrow> fault + graph_dyn" where
  "add_railways junk [] g = Inr g"
| "add_railways junk ((from, until) # rest) g =
     bind_fault (graph_add_railway junk g (from - 1) (until - 1)) (add_railways junk rest)"

definition build_graph_dyn ::
  "int \<Rightarrow> int \<Rightarrow> int list \<Rightarrow> (int \<times> int) list \<Rightarrow> fault + graph_dyn" where
  "build_graph_dyn junk n airports edges =
     bind_fault (add_airports junk airports (make_graph (nat (n + 1))))
       (add_railways junk edges)"

definition degree_dyn :: "graph_dyn \<Rightarrow> int \<Rightarrow> fault + int" where
  "degree_dyn g head = list_get (d_degree g) head"

definition neighbour_dyn :: "graph_dyn \<Rightarrow> int \<Rightarrow> int \<Rightarrow> fault + int" where
  "neighbour_dyn g head i = bind_fault (list_get (d_neighbours g) head) (\<lambda>row. list_get row i)"

definition solve_dyn :: "graph_dyn \<Rightarrow> int \<Rightarrow> int \<Rightarrow> (fault + int) option" where
  "solve_dyn g from until =
     solve_generic (degree_dyn g) (neighbour_dyn g) (d_size g) from until"

definition main_dyn ::
  "int \<Rightarrow> int \<Rightarrow> int \<Rightarrow> int \<Rightarrow> int list \<Rightarrow> (int \<times> int) list \<Rightarrow> (fault + string) option" where
  "main_dyn junk n s t airports edges =
     (case build_graph_dyn junk n airports edges of
        Inl f \<Rightarrow> Some (Inl f)
      | Inr g \<Rightarrow> report (solve_dyn g (s - 1) (t - 1)))"

section \<open>Executions of the search, iteration by iteration\<close>

text \<open>
  \<open>loop_next\<close> is one turn of the \<^verbatim>\<open>while\<close> loop seen from outside: the state with which the
  loop condition is evaluated next, or \<open>None\<close> when \<^verbatim>\<open>solve\<close> has left the loop (by its
  condition, by \<^verbatim>\<open>return\<close> or by a fault). \<open>iteration \<dots> st k\<close> is the state after \<open>k\<close>
  turns of a run started in \<open>st\<close>.
\<close>

definition loop_next ::
  "(int \<Rightarrow> fault + int) \<Rightarrow> (int \<Rightarrow> int \<Rightarrow> fault + int) \<Rightarrow> int \<Rightarrow> solve_state \<Rightarrow>
   solve_state option" where
  "loop_next deg nb until st =
     (if b_size (queue st) > 0
      then (case solve_body deg nb until st of
              Inl f \<Rightarrow> None
            | Inr (Return r) \<Rightarrow> None
            | Inr (Continue st') \<Rightarrow> Some st')
      else None)"

fun iteration ::
  "(int \<Rightarrow> fault + int) \<Rightarrow> (int \<Rightarrow> int \<Rightarrow> fault + int) \<Rightarrow> int \<Rightarrow> solve_state \<Rightarrow> nat \<Rightarrow>
   solve_state option" where
  "iteration deg nb until st 0 = Some st"
| "iteration deg nb until st (Suc k) =
     (case iteration deg nb until st k of
        None \<Rightarrow> None
      | Some st' \<Rightarrow> loop_next deg nb until st')"

section \<open>The search over a list queue\<close>

text \<open>
  The same search with the specification's queue, a list, in place of the circular buffer:
  the logical state of \<^verbatim>\<open>solve\<close> is the contents of the queue, \<^verbatim>\<open>distance\<close> and
  \<^verbatim>\<open>visited\<close>. The buffer search is shown below to refine it step by step.
\<close>

type_synonym list_state = "int list \<times> int \<times> bool list"

definition abstraction :: "solve_state \<Rightarrow> list_state" where
  "abstraction st = (contents (queue st), distance st, visited st)"

fun list_visit ::
  "(int \<Rightarrow> fault + int) \<Rightarrow> nat list \<Rightarrow> int list \<times> bool list \<Rightarrow>
   fault + int list \<times> bool list" where
  "list_visit nb [] (q, vis) = Inr (q, vis)"
| "list_visit nb (i # is) (q, vis) =
     (case nb (int i) of
        Inl f \<Rightarrow> Inl f
      | Inr city \<Rightarrow>
          (if 0 \<le> city \<and> nat city < length vis
           then (if \<not> vis ! nat city
                 then list_visit nb is (q @ [city], vis[nat city := True])
                 else list_visit nb is (q, vis))
           else Inl OutOfBounds))"

definition list_body ::
  "(int \<Rightarrow> fault + int) \<Rightarrow> (int \<Rightarrow> int \<Rightarrow> fault + int) \<Rightarrow> int \<Rightarrow> list_state \<Rightarrow>
   fault + (int + list_state)" where
  "list_body deg nb until st =
     (case st of (q, dist, vis) \<Rightarrow>
       (case q of
          [] \<Rightarrow> Inl EmptyDequeue
        | head # q \<Rightarrow>
            (if head < 0 then Inr (Inr (q, - head, vis))
             else if head = until then Inr (Inl (dist - 1))
             else (case deg head of
                     Inl f \<Rightarrow> Inl f
                   | Inr d \<Rightarrow>
                       (case list_visit (nb head) [0..<nat d]
                               (if d > 0 then q @ [- dist - 1] else q, vis) of
                          Inl f \<Rightarrow> Inl f
                        | Inr (q, vis) \<Rightarrow> Inr (Inr (q, dist, vis)))))))"

partial_function (option) list_loop ::
  "(int \<Rightarrow> fault + int) \<Rightarrow> (int \<Rightarrow> int \<Rightarrow> fault + int) \<Rightarrow> int \<Rightarrow> list_state \<Rightarrow>
   (fault + int) option" where
  "list_loop deg nb until st =
     (if fst st \<noteq> []
      then (case list_body deg nb until st of
              Inl f \<Rightarrow> Some (Inl f)
            | Inr (Inl r) \<Rightarrow> Some (Inr r)
            | Inr (Inr st') \<Rightarrow> list_loop deg nb until st')
      else Some (Inr IMPOSSIBLE))"

definition list_next ::
  "(int \<Rightarrow> fault + int) \<Rightarrow> (int \<Rightarrow> int \<Rightarrow> fault + int) \<Rightarrow> int \<Rightarrow> list_state \<Rightarrow>
   list_state option" where
  "list_next deg nb until st =
     (if fst st \<noteq> []
      then (case list_body deg nb until st of
              Inl f \<Rightarrow> None
            | Inr (Inl r) \<Rightarrow> None
            | Inr (Inr st') \<Rightarrow> Some st')
      else None)"

fun list_iteration ::
  "(int \<Rightarrow> fault + int) \<Rightarrow> (int \<Rightarrow> int \<Rightarrow> fault + int) \<Rightarrow> int \<Rightarrow> list_state \<Rightarrow> nat \<Rightarrow>
   list_state option" where
  "list_iteration deg nb until st 0 = Some st"
| "list_iteration deg nb until st (Suc k) =
     (case list_iteration deg nb until st k of
        None \<Rightarrow> None
      | Some st' \<Rightarrow> list_next deg nb until st')"

text \<open>
  The cities that the \<^verbatim>\<open>for\<close> loop enqueues, in order: the neighbours not yet visited,
  each once.
\<close>

fun fresh :: "(int \<Rightarrow> fault + int) \<Rightarrow> nat list \<Rightarrow> bool list \<Rightarrow> int list" where
  "fresh nb [] vis = []"
| "fresh nb (i # is) vis =
     (case nb (int i) of
        Inl f \<Rightarrow> []
      | Inr city \<Rightarrow>
          (if 0 \<le> city \<and> nat city < length vis
           then (if \<not> vis ! nat city then city # fresh nb is (vis[nat city := True])
                 else fresh nb is vis)
           else []))"

text \<open>The level markers of a queue, decoded: the negated negative entries, in queue order.\<close>

definition markers :: "int list \<Rightarrow> int list" where
  "markers q = map uminus (filter (\<lambda>x. x < 0) q)"

text \<open>
  The invariant of the markers in a run: decoded, they are in non-decreasing order and not
  below \<^verbatim>\<open>distance\<close>, which is positive; and they are at most \<^verbatim>\<open>distance + 1\<close>, unless the queue holds
  markers only (which is the case when \<^verbatim>\<open>solve\<close> is called with a negative \<^verbatim>\<open>from\<close>).
\<close>

definition marker_inv :: "list_state \<Rightarrow> bool" where
  "marker_inv st =
     (case st of (q, d, vis) \<Rightarrow>
        1 \<le> d \<and> sorted (d # markers q) \<and>
        ((\<forall>m\<in>set (markers q). m \<le> d + 1) \<or> (\<forall>x\<in>set q. x < 0)))"

section \<open>An example run\<close>

text \<open>
  The graph that \<^verbatim>\<open>main.c\<close> builds for N=4, K=0 and the two routes (1,2) and (1,3), and the
  logical states of the run of \<^verbatim>\<open>solve(1, 4)\<close> on it, by number of iterations.
\<close>

definition star_graph :: graph where
  "star_graph = projr (build_graph 4 [] [(1, 2), (1, 3)])"

definition star_iteration :: "nat \<Rightarrow> solve_state option" where
  "star_iteration k =
     iteration (degree_flat star_graph) (neighbour_flat star_graph) 4
       (solve_init (the (make_circular_buffer DEFAULT_CAPACITY)) (f_size star_graph) 1) k"

definition star_run :: "nat \<Rightarrow> list_state option" where
  "star_run k = map_option abstraction (star_iteration k)"

section \<open>Graphs, walks and the distance that the search is to compute\<close>

text \<open>
  The neighbours of a city as the accessors of a graph give them: entries \<open>0\<close> to
  \<open>degree - 1\<close> of its list.
\<close>

definition adjacent ::
  "(int \<Rightarrow> fault + int) \<Rightarrow> (int \<Rightarrow> int \<Rightarrow> fault + int) \<Rightarrow> int \<Rightarrow> int list" where
  "adjacent deg nb u =
     (case deg u of
        Inl f \<Rightarrow> []
      | Inr d \<Rightarrow>
          concat (map (\<lambda>i. case nb u (int i) of Inl f \<Rightarrow> [] | Inr w \<Rightarrow> [w]) [0..<nat d]))"

text \<open>
  A graph on the cities \<open>0..n-1\<close> is well formed when every degree and every neighbour can
  be read without fault and every neighbour is a city; it is undirected when \<open>u\<close> is among
  the neighbours of each of its neighbours.
\<close>

definition wf_graph ::
  "(int \<Rightarrow> fault + int) \<Rightarrow> (int \<Rightarrow> int \<Rightarrow> fault + int) \<Rightarrow> nat \<Rightarrow> bool" where
  "wf_graph deg nb n =
     (\<forall>u\<in>set [0..<n].
        case deg (int u) of
          Inl f \<Rightarrow> False
        | Inr d \<Rightarrow>
            (\<forall>i\<in>set [0..<nat d].
               case nb (int u) (int i) of
                 Inl f \<Rightarrow> False
               | Inr w \<Rightarrow> 0 \<le> w \<and> w < int n))"

definition undirected ::
  "(int \<Rightarrow> fault + int) \<Rightarrow> (int \<Rightarrow> int \<Rightarrow> fault + int) \<Rightarrow> nat \<Rightarrow> bool" where
  "undirected deg nb n =
     (\<forall>u\<in>set [0..<n]. \<forall>w\<in>set (adjacent deg nb (int u)).
        int u \<in> set (adjacent deg nb w))"

text \<open>\<open>walks \<dots> from k\<close>: the cities at the end of a walk of \<open>k\<close> edges that starts in \<open>from\<close>.\<close>

fun walks ::
  "(int \<Rightarrow> fault + int) \<Rightarrow> (int \<Rightarrow> int \<Rightarrow> fault + int) \<Rightarrow> int \<Rightarrow> nat \<Rightarrow> int set" where
  "walks deg nb from 0 = {from}"
| "walks deg nb from (Suc k) = (\<Union>u\<in>walks deg nb from k. set (adjacent deg nb u))"

text \<open>
  The least number of edges of a walk from \<open>from\<close> to \<open>until\<close>, or \<^verbatim>\<open>IMPOSSIBLE\<close> when there
  is no walk.
\<close>

definition hop_distance ::
  "(int \<Rightarrow> fault + int) \<Rightarrow> (int \<Rightarrow> int \<Rightarrow> fault + int) \<Rightarrow> int \<Rightarrow> int \<Rightarrow> int" where
  "hop_distance deg nb from until =
     (if \<exists>k. until \<in> walks deg nb from k
      then int (LEAST k. until \<in> walks deg nb from k)
      else IMPOSSIBLE)"

definition dist_is ::
  "(int \<Rightarrow> fault + int) \<Rightarrow> (int \<Rightarrow> int \<Rightarrow> fault + int) \<Rightarrow> int \<Rightarrow> int \<Rightarrow> nat \<Rightarrow> bool" where
  "dist_is deg nb from v k \<longleftrightarrow>
     v \<in> walks deg nb from k \<and> (\<forall>j<k. v \<notin> walks deg nb from j)"

section \<open>The invariant of the search\<close>

text \<open>The cities whose \<^verbatim>\<open>visited\<close> flag is set.\<close>

definition vset :: "bool list \<Rightarrow> int set" where
  "vset vis = {v. 0 \<le> v \<and> nat v < length vis \<and> vis ! nat v}"

text \<open>
  The cities of a queue, each with the value that \<^verbatim>\<open>distance\<close> will have when the city is
  dequeued: the decoding of the last marker in front of it, or the current \<^verbatim>\<open>distance\<close>.
\<close>

fun tagged :: "int \<Rightarrow> int list \<Rightarrow> (int \<times> int) list" where
  "tagged d [] = []"
| "tagged d (x # q) = (if x < 0 then tagged (- x) q else (x, d) # tagged d q)"

text \<open>A city has been processed when all its neighbours are visited; it is not the destination.\<close>

definition processed ::
  "(int \<Rightarrow> fault + int) \<Rightarrow> (int \<Rightarrow> int \<Rightarrow> fault + int) \<Rightarrow> int \<Rightarrow> bool list \<Rightarrow> int \<Rightarrow> bool" where
  "processed deg nb until vis v \<longleftrightarrow> v \<noteq> until \<and> set (adjacent deg nb v) \<subseteq> vset vis"

definition bfs_inv ::
  "(int \<Rightarrow> fault + int) \<Rightarrow> (int \<Rightarrow> int \<Rightarrow> fault + int) \<Rightarrow> int \<Rightarrow> int \<Rightarrow> list_state \<Rightarrow> bool" where
  "bfs_inv deg nb from until st =
     (case st of (q, d, vis) \<Rightarrow>
        (\<forall>p\<in>set (tagged d q). 0 \<le> fst p \<and> nat (fst p) < length vis \<and> 1 \<le> snd p) \<and>
        sorted (map snd (tagged d q)) \<and>
        (\<forall>p\<in>set (tagged d q). snd p \<le> snd (hd (tagged d q)) + 1) \<and>
        (\<forall>p\<in>set (tagged d q).
           dist_is deg nb from (fst p) (nat (snd p - 1)) \<or>
           (fst p = from \<and> from \<noteq> until \<and> processed deg nb until vis from)) \<and>
        (\<forall>v. v \<in> vset vis \<or> v = from \<longrightarrow>
           processed deg nb until vis v \<or>
           (\<exists>t. (v, t) \<in> set (tagged d q) \<and> dist_is deg nb from v (nat (t - 1)))) \<and>
        (tagged d q \<noteq> [] \<longrightarrow>
           (\<forall>k. int k < snd (hd (tagged d q)) \<longrightarrow>
              walks deg nb from k \<subseteq> vset vis \<union> {from})))"

text \<open>The measure that decreases with every iteration.\<close>

definition loop_measure :: "list_state \<Rightarrow> nat" where
  "loop_measure st =
     (case st of (q, d, vis) \<Rightarrow>
        3 * length (filter Not vis) + 2 * length (filter (\<lambda>x. 0 \<le> x) q) +
        length (filter (\<lambda>x. x < 0) q))"

text \<open>A graph of the second representation: two cities and one edge between them.\<close>

definition pair_graph :: graph_dyn where
  "pair_graph = \<lparr>d_size = 2, d_capacity = [1, 1], d_degree = [1, 1], d_neighbours = [[1], [0]]\<rparr>"

section \<open>The links of an input and the graphs built from them\<close>

text \<open>
  The partners of a city in a list of links (pairs of cities), in the order of the links:
  what a graph builder appends to the city's neighbours, link by link.
\<close>

fun partners :: "(int \<times> int) list \<Rightarrow> int \<Rightarrow> int list" where
  "partners [] v = []"
| "partners ((a, b) # ls) v =
     (if a = v then [b] else []) @ (if b = v then [a] else []) @ partners ls v"

text \<open>
  The links in the order in which \<^verbatim>\<open>main.c\<close> inserts them, with the hub 0 and the cities
  \<open>1..n\<close>; and in the order in which the second program adds them, with the cities
  \<open>0..n-1\<close> and the hub \<open>n\<close>.
\<close>

definition links_flat :: "int list \<Rightarrow> (int \<times> int) list \<Rightarrow> (int \<times> int) list" where
  "links_flat airports edges = edges @ map (\<lambda>c. (0, c)) airports"

definition links_dyn :: "int \<Rightarrow> int list \<Rightarrow> (int \<times> int) list \<Rightarrow> (int \<times> int) list" where
  "links_dyn n airports edges =
     map (\<lambda>c. (c - 1, n)) airports @ map (\<lambda>(a, b). (a - 1, b - 1)) edges"

text \<open>
  A valid input: the numbers respect the limits for which \<^verbatim>\<open>main.c\<close> dimensions its arrays,
  source, destination, airports and route ends are cities \<open>1..n\<close>, and a route joins two
  distinct cities.
\<close>

definition valid_input :: "int \<Rightarrow> int \<Rightarrow> int \<Rightarrow> int list \<Rightarrow> (int \<times> int) list \<Rightarrow> bool" where
  "valid_input n s t airports edges \<longleftrightarrow>
     n \<le> 100000 \<and> 1 \<le> s \<and> s \<le> n \<and> 1 \<le> t \<and> t \<le> n \<and>
     length airports \<le> 100001 \<and> length edges \<le> 100000 \<and>
     list_all (\<lambda>c. 1 \<le> c \<and> c \<le> n) airports \<and>
     list_all (\<lambda>(a, b). 1 \<le> a \<and> a \<le> n \<and> 1 \<le> b \<and> b \<le> n \<and> a \<noteq> b) edges"

text \<open>
  The state of the second program's graph after the links \<open>done\<close>: per city, the degree
  counts its partners, the first \<open>degree\<close> slots of its array hold them, and the capacity
  is the length of the array.
\<close>

definition dyn_inv :: "nat \<Rightarrow> (int \<times> int) list \<Rightarrow> graph_dyn \<Rightarrow> bool" where
  "dyn_inv N done g \<longleftrightarrow>
     d_size g = N \<and> length (d_capacity g) = N \<and> length (d_degree g) = N \<and>
     length (d_neighbours g) = N \<and>
     (\<forall>v<N. d_degree g ! v = int (length (partners done (int v))) \<and>
            d_capacity g ! v = int (length (d_neighbours g ! v)) \<and>
            0 < length (d_neighbours g ! v) \<and>
            length (partners done (int v)) \<le> length (d_neighbours g ! v) \<and>
            take (length (partners done (int v))) (d_neighbours g ! v) = partners done (int v))"

text \<open>
  A graph on the cities \<open>0..n-1\<close>, given by its accessors, represents a list of links
  when the neighbours of each city are its partners, in order.
\<close>

definition represents ::
  "(int \<Rightarrow> fault + int) \<Rightarrow> (int \<Rightarrow> int \<Rightarrow> fault + int) \<Rightarrow> nat \<Rightarrow> (int \<times> int) list \<Rightarrow> bool" where
  "represents deg nb n ls \<longleftrightarrow>
     (\<forall>v. 0 \<le> v \<and> nat v < n \<longrightarrow>
        deg v = Inr (int (length (partners ls v))) \<and>
        (\<forall>i<length (partners ls v). nb v (int i) = Inr (partners ls v ! i)))"

text \<open>The ends of all links are cities \<open>0..n-1\<close>.\<close>

definition links_within :: "nat \<Rightarrow> (int \<times> int) list \<Rightarrow> bool" where
  "links_within n ls = list_all (\<lambda>(a, b). 0 \<le> a \<and> nat a < n \<and> 0 \<le> b \<and> nat b < n) ls"

text \<open>
  The flat layout of \<^verbatim>\<open>main.c\<close>: the slice of city \<open>v\<close> in \<^verbatim>\<open>neighbours\<close> starts after the
  slices of the cities before it. During the second pass, after the links \<open>done\<close>, the
  cursor \<^verbatim>\<open>degrees[v]\<close> counts the partners of \<open>v\<close> so far and the slice holds them.
\<close>

definition offset :: "(int \<times> int) list \<Rightarrow> nat \<Rightarrow> nat" where
  "offset ls v = (\<Sum>u<v. length (partners ls (int u)))"

definition flat_inv :: "nat \<Rightarrow> (int \<times> int) list \<Rightarrow> (int \<times> int) list \<Rightarrow> graph \<Rightarrow> bool" where
  "flat_inv N links done g \<longleftrightarrow>
     f_size g = N \<and>
     (\<forall>v\<le>N. f_start g v = int (offset links v)) \<and>
     (\<forall>v<N. f_degrees g v = int (length (partners done (int v)))) \<and>
     (\<forall>v<N. \<forall>j<length (partners done (int v)).
        f_neighbours g (offset links v + j) = partners done (int v) ! j)"

section \<open>The circular buffer is a first-in first-out queue\<close>

lemma memcpy_twice:
  "length els = c \<Longrightarrow> memcpy (memcpy (calloc (c * 2)) 0 els c) c els c = els @ els"
  by (simp add: memcpy_def calloc_def)

lemma mod_shift_less:
  fixes s a b c :: nat
  assumes "a < b" "b < c"
  shows "(s + a) mod c \<noteq> (s + b) mod c"
proof
  assume "(s + a) mod c = (s + b) mod c"
  then have "c dvd (s + b) - (s + a)"
    using assms(1) mod_eq_dvd_iff_nat[of "s + a" "s + b" c] by simp
  then have "c dvd b - a" by simp
  then show False using assms by (auto dest: dvd_imp_le)
qed

lemma mod_shift_inj:
  fixes s a b c :: nat
  assumes "a < c" "b < c" "(s + a) mod c = (s + b) mod c"
  shows "a = b"
  using assms mod_shift_less[of a b c s] mod_shift_less[of b a c s]
  by (cases a b rule: linorder_cases) auto

lemma double_index:
  fixes s i c :: nat
  assumes "s < c" "i < c" "length els = c"
  shows "(els @ els) ! (s + i) = els ! ((s + i) mod c)"
proof (cases "s + i < c")
  case True
  then show ?thesis using assms by (simp add: nth_append)
next
  case False
  then have "(s + i) mod c = s + i - c" using assms
    by (simp add: mod_if)
  then show ?thesis using False assms by (simp add: nth_append)
qed

lemma length_contents [simp]: "length (contents b) = b_size b"
  by (simp add: contents_def)

lemma contents_Nil_iff: "contents b = [] \<longleftrightarrow> b_size b = 0"
  by (simp add: contents_def)

lemma enqueue_ok:
  assumes "buffer_ok b"
  shows "buffer_ok (circular_buffer_enqueue b x)"
  using assms
  by (auto simp: buffer_ok_def circular_buffer_enqueue_def Let_def memcpy_twice)

lemma enqueue_contents:
  assumes "buffer_ok b"
  shows "contents (circular_buffer_enqueue b x) = contents b @ [x]"
proof (cases "b_capacity b = b_size b")
  case full: True
  let ?c = "b_capacity b" and ?s = "b_start b" and ?els = "b_elements b"
  have len: "length ?els = ?c" and s: "?s < ?c" and c: "0 < ?c"
    using assms by (auto simp: buffer_ok_def)
  have idx: "(?s + ?c) mod (?c * 2) = ?s + ?c" using s by simp
  have enq: "circular_buffer_enqueue b x =
      b\<lparr>b_capacity := ?c * 2, b_elements := (?els @ ?els)[?s + ?c := x], b_size := ?c + 1\<rparr>"
    using full len idx by (simp add: circular_buffer_enqueue_def Let_def memcpy_twice)
  have old: "((?els @ ?els)[?s + ?c := x]) ! ((?s + i) mod (?c * 2)) = ?els ! ((?s + i) mod ?c)"
    if "i < ?c" for i
  proof -
    have "(?s + i) mod (?c * 2) = ?s + i" using s that by simp
    moreover have "?s + i \<noteq> ?s + ?c" using that by simp
    ultimately show ?thesis using double_index[OF s that len] by simp
  qed
  have new: "((?els @ ?els)[?s + ?c := x]) ! ((?s + ?c) mod (?c * 2)) = x"
    using idx len s by simp
  show ?thesis
    unfolding enq contents_def using full old new
    by (simp del: mult_2_right)
next
  case notfull: False
  let ?c = "b_capacity b" and ?s = "b_start b" and ?els = "b_elements b" and ?n = "b_size b"
  have len: "length ?els = ?c" and s: "?s < ?c" and c: "0 < ?c" and n: "?n < ?c"
    using assms notfull by (auto simp: buffer_ok_def)
  have enq: "circular_buffer_enqueue b x =
      b\<lparr>b_elements := ?els[(?s + ?n) mod ?c := x], b_size := ?n + 1\<rparr>"
    using notfull by (simp add: circular_buffer_enqueue_def Let_def)
  have old: "(?els[(?s + ?n) mod ?c := x]) ! ((?s + i) mod ?c) = ?els ! ((?s + i) mod ?c)"
    if "i < ?n" for i
  proof -
    have "(?s + i) mod ?c \<noteq> (?s + ?n) mod ?c"
      using mod_shift_inj[of i ?c ?n ?s] that n by auto
    then show ?thesis by simp
  qed
  have new: "(?els[(?s + ?n) mod ?c := x]) ! ((?s + ?n) mod ?c) = x"
    using len c by simp
  show ?thesis
    unfolding enq contents_def using old new by simp
qed

lemma dequeue_empty:
  "b_size b = 0 \<Longrightarrow> circular_buffer_dequeue b = Inl EmptyDequeue"
  by (simp add: circular_buffer_dequeue_def)

lemma dequeue_nonempty:
  assumes "buffer_ok b" "contents b = x # xs"
  shows "\<exists>b'. circular_buffer_dequeue b = Inr (x, b') \<and> buffer_ok b' \<and> contents b' = xs"
proof -
  let ?c = "b_capacity b" and ?s = "b_start b" and ?els = "b_elements b" and ?n = "b_size b"
  have len: "length ?els = ?c" and s: "?s < ?c" and c: "0 < ?c" and n: "?n \<le> ?c"
    using assms by (auto simp: buffer_ok_def)
  have n0: "?n = Suc (length xs)" using assms(2) length_contents[of b] by simp
  let ?b' = "b\<lparr>b_size := ?n - 1, b_start := (?s + 1) mod ?c\<rparr>"
  have x: "?els ! (?s mod ?c) = x"
    using assms(2) n0 by (simp add: contents_def upt_conv_Cons del: upt_Suc)
  have deq: "circular_buffer_dequeue b = Inr (x, ?b')"
    using n0 x by (simp add: circular_buffer_dequeue_def Let_def)
  have ok: "buffer_ok ?b'" using c len n by (simp add: buffer_ok_def)
  have "contents b = map (\<lambda>i. ?els ! ((?s + i) mod ?c)) (0 # map Suc [0..<length xs])"
    unfolding contents_def n0 by (simp only: upt_conv_Cons map_Suc_upt[symmetric] upt_0)
  then have tl: "xs = map (\<lambda>i. ?els ! ((?s + Suc i) mod ?c)) [0..<length xs]"
    using assms(2) by (simp add: comp_def)
  have "contents ?b' = map (\<lambda>i. ?els ! (((?s + 1) mod ?c + i) mod ?c)) [0..<length xs]"
    by (simp add: contents_def n0)
  also have "\<dots> = map (\<lambda>i. ?els ! ((?s + Suc i) mod ?c)) [0..<length xs]"
    by (simp add: mod_add_left_eq)
  finally have "contents ?b' = xs" using tl by simp
  with deq ok show ?thesis by blast
qed

lemma run_ops_fifo:
  "buffer_ok b \<Longrightarrow> run_ops b ops = fifo_ops (contents b) ops"
proof (induction ops arbitrary: b)
  case Nil
  then show ?case by simp
next
  case (Cons op ops)
  show ?case
  proof (cases op)
    case (Enqueue x)
    then show ?thesis
      using Cons.IH[OF enqueue_ok[OF Cons.prems]] enqueue_contents[OF Cons.prems] by simp
  next
    case Dequeue
    show ?thesis
    proof (cases "contents b")
      case Nil
      then have "b_size b = 0" using length_contents[of b] by simp
      then show ?thesis using Dequeue Nil by (simp add: dequeue_empty)
    next
      case (Cons x xs)
      from dequeue_nonempty[OF Cons.prems this] obtain b' where
        "circular_buffer_dequeue b = Inr (x, b')" "buffer_ok b'" "contents b' = xs" by blast
      then show ?thesis using Dequeue Cons Cons.IH[of b'] by simp
    qed
  qed
qed

lemma make_ok: "make_circular_buffer c = Some b \<Longrightarrow> buffer_ok b \<and> contents b = []"
  by (auto simp: make_circular_buffer_def buffer_ok_def contents_def calloc_def split: if_splits)

section \<open>The buffer search refines the list search\<close>

lemma visit_sim:
  assumes "buffer_ok q"
  shows "case visit_neighbours nb is (q, vis) of
           Inl f \<Rightarrow> list_visit nb is (contents q, vis) = Inl f
         | Inr (q', vis') \<Rightarrow>
             buffer_ok q' \<and> list_visit nb is (contents q, vis) = Inr (contents q', vis')"
  using assms
proof (induction "is" arbitrary: q vis)
  case Nil
  then show ?case by simp
next
  case (Cons i "is")
  show ?case
  proof (cases "nb (int i)")
    case (Inl f)
    then show ?thesis by simp
  next
    case (Inr city)
    show ?thesis
    proof (cases "0 \<le> city \<and> nat city < length vis")
      case False
      then show ?thesis using Inr by auto
    next
      case inb: True
      show ?thesis
      proof (cases "vis ! nat city")
        case True
        then show ?thesis using Inr inb Cons.IH[OF Cons.prems, of vis]
          by (auto split: sum.splits)
      next
        case False
        then show ?thesis
          using Inr inb Cons.IH[OF enqueue_ok[OF Cons.prems, of city], of "vis[nat city := True]"]
            enqueue_contents[OF Cons.prems, of city]
          by (auto split: sum.splits)
      qed
    qed
  qed
qed

lemma body_sim:
  assumes "buffer_ok (queue st)"
  shows "case solve_body deg nb until st of
           Inl f \<Rightarrow> list_body deg nb until (abstraction st) = Inl f
         | Inr (Return r) \<Rightarrow> list_body deg nb until (abstraction st) = Inr (Inl r)
         | Inr (Continue st') \<Rightarrow>
             buffer_ok (queue st') \<and>
             list_body deg nb until (abstraction st) = Inr (Inr (abstraction st'))"
proof (cases "contents (queue st)")
  case Nil
  then have "b_size (queue st) = 0" using length_contents[of "queue st"] by simp
  then show ?thesis using Nil
    by (simp add: solve_body_def list_body_def abstraction_def dequeue_empty)
next
  case (Cons head rest)
  from dequeue_nonempty[OF assms Cons] obtain q' where
    deq: "circular_buffer_dequeue (queue st) = Inr (head, q')" and ok': "buffer_ok q'"
    and c': "contents q' = rest" by blast
  show ?thesis
  proof (cases "head < 0")
    case True
    then show ?thesis using deq ok' c' Cons
      by (simp add: solve_body_def list_body_def abstraction_def)
  next
    case nonneg: False
    show ?thesis
    proof (cases "head = until")
      case True
      then show ?thesis using deq nonneg Cons
        by (simp add: solve_body_def list_body_def abstraction_def)
    next
      case other: False
      show ?thesis
      proof (cases "deg head")
        case (Inl f)
        then show ?thesis using deq nonneg other Cons
          by (simp add: solve_body_def list_body_def abstraction_def)
      next
        case (Inr d)
        define q'' where "q'' = (if d > 0 then circular_buffer_enqueue q' (- distance st - 1) else q')"
        have ok'': "buffer_ok q''" using ok' by (simp add: q''_def enqueue_ok)
        have c'': "contents q'' = (if d > 0 then rest @ [- distance st - 1] else rest)"
          using ok' c' by (simp add: q''_def enqueue_contents)
        have sb: "solve_body deg nb until st =
            (case visit_neighbours (nb head) [0..<nat d] (q'', visited st) of
               Inl f \<Rightarrow> Inl f
             | Inr (q, vis) \<Rightarrow> Inr (Continue (st\<lparr>queue := q, visited := vis\<rparr>)))"
          using deq nonneg other Inr by (simp add: solve_body_def q''_def Let_def)
        have lb: "list_body deg nb until (abstraction st) =
            (case list_visit (nb head) [0..<nat d] (contents q'', visited st) of
               Inl f \<Rightarrow> Inl f
             | Inr (q, vis) \<Rightarrow> Inr (Inr (q, distance st, vis)))"
          using nonneg other Inr Cons c'' by (simp add: list_body_def abstraction_def)
        show ?thesis
          using visit_sim[OF ok'', of "nb head" "[0..<nat d]" "visited st"]
          unfolding sb lb
          by (auto simp: abstraction_def split: sum.splits)
      qed
    qed
  qed
qed

lemma loop_sim_1:
  assumes "solve_loop deg nb until st = Some r"
  shows "buffer_ok (queue st) \<longrightarrow> list_loop deg nb until (abstraction st) = Some r"
proof (rule solve_loop.raw_induct[OF _ assms])
  fix loop deg nb until st r
  assume IH: "\<And>deg nb until st r. loop deg nb until st = Some r \<Longrightarrow>
      buffer_ok (queue st) \<longrightarrow> list_loop deg nb until (abstraction st) = Some r"
    and eq: "(if 0 < b_size (queue st)
      then case solve_body deg nb until st of Inl f \<Rightarrow> Some (Inl f)
           | Inr (Return r) \<Rightarrow> Some (Inr r)
           | Inr (Continue st') \<Rightarrow> loop deg nb until st'
      else Some (Inr IMPOSSIBLE)) = Some r"
  show "buffer_ok (queue st) \<longrightarrow> list_loop deg nb until (abstraction st) = Some r"
  proof
    assume ok: "buffer_ok (queue st)"
    show "list_loop deg nb until (abstraction st) = Some r"
    proof (cases "b_size (queue st) > 0")
      case False
      then have "contents (queue st) = []" by (simp add: contents_Nil_iff)
      then show ?thesis using eq False
        by (subst list_loop.simps) (simp add: abstraction_def)
    next
      case True
      then have ne: "fst (abstraction st) \<noteq> []"
        by (simp add: abstraction_def contents_Nil_iff)
      show ?thesis
      proof (cases "solve_body deg nb until st")
        case (Inl f)
        then show ?thesis using body_sim[OF ok, of deg nb until] eq True ne
          by (subst list_loop.simps) simp
      next
        case (Inr p)
        show ?thesis
        proof (cases p)
          case (Return x)
          then show ?thesis using Inr body_sim[OF ok, of deg nb until] eq True ne
            by (subst list_loop.simps) simp
        next
          case (Continue st')
          have "loop deg nb until st' = Some r" using eq True Inr Continue by simp
          moreover have "buffer_ok (queue st')"
            and lb: "list_body deg nb until (abstraction st) = Inr (Inr (abstraction st'))"
            using body_sim[OF ok, of deg nb until] Inr Continue by simp_all
          ultimately have "list_loop deg nb until (abstraction st') = Some r"
            using IH by blast
          then show ?thesis using lb ne
            by (subst list_loop.simps) simp
        qed
      qed
    qed
  qed
qed

lemma loop_sim_2:
  assumes "list_loop deg nb until ast = Some r"
  shows "\<forall>st. ast = abstraction st \<longrightarrow> buffer_ok (queue st) \<longrightarrow>
         solve_loop deg nb until st = Some r"
proof (rule list_loop.raw_induct[OF _ assms])
  fix loop deg nb until ast r
  assume IH: "\<And>deg nb until ast r. loop deg nb until ast = Some r \<Longrightarrow>
      \<forall>st. ast = abstraction st \<longrightarrow> buffer_ok (queue st) \<longrightarrow>
         solve_loop deg nb until st = Some r"
    and eq: "(if fst ast \<noteq> []
      then case list_body deg nb until ast of Inl f \<Rightarrow> Some (Inl f)
           | Inr (Inl r) \<Rightarrow> Some (Inr r)
           | Inr (Inr st') \<Rightarrow> loop deg nb until st'
      else Some (Inr IMPOSSIBLE)) = Some r"
  show "\<forall>st. ast = abstraction st \<longrightarrow> buffer_ok (queue st) \<longrightarrow>
         solve_loop deg nb until st = Some r"
  proof (intro allI impI)
    fix st
    assume ast: "ast = abstraction st" and ok: "buffer_ok (queue st)"
    show "solve_loop deg nb until st = Some r"
    proof (cases "b_size (queue st) > 0")
      case False
      then have "fst ast = []" using ast by (simp add: abstraction_def contents_def)
      then show ?thesis using eq False
        by (subst solve_loop.simps) simp
    next
      case True
      have ne: "fst ast \<noteq> []"
        using True ast by (simp add: abstraction_def contents_Nil_iff)
      have step: "(case list_body deg nb until ast of
                Inl f \<Rightarrow> Some (Inl f)
              | Inr (Inl r) \<Rightarrow> Some (Inr r)
              | Inr (Inr st') \<Rightarrow> loop deg nb until st') = Some r"
        using eq ne by simp
      show ?thesis
        using body_sim[OF ok, of deg nb until] step True IH ast
        by (subst solve_loop.simps) (auto split: sum.splits progress.splits)
    qed
  qed
qed

lemma loop_sim:
  assumes "buffer_ok (queue st)"
  shows "solve_loop deg nb until st = list_loop deg nb until (abstraction st)"
proof (cases "solve_loop deg nb until st")
  case (Some r)
  then show ?thesis using loop_sim_1[OF Some] assms by simp
next
  case None
  show ?thesis
  proof (cases "list_loop deg nb until (abstraction st)")
    case None': None
    then show ?thesis using None by simp
  next
    case (Some r)
    then show ?thesis using loop_sim_2[OF Some] assms None by simp
  qed
qed

section \<open>From \<^verbatim>\<open>solve\<close> to the list search\<close>

lemma solve_generic_list:
  "solve_generic deg nb gsize from until =
   list_loop deg nb until ([from], 1, replicate gsize False)"
proof -
  obtain q where q: "make_circular_buffer DEFAULT_CAPACITY = Some q"
    by (simp add: make_circular_buffer_def DEFAULT_CAPACITY_def)
  have ok: "buffer_ok q" and c: "contents q = []" using make_ok[OF q] by simp_all
  have "buffer_ok (queue (solve_init q gsize from))"
    using enqueue_ok[OF ok] by (simp add: solve_init_def)
  moreover have "abstraction (solve_init q gsize from) = ([from], 1, replicate gsize False)"
    using enqueue_contents[OF ok, of "from"] c by (simp add: solve_init_def abstraction_def)
  ultimately show ?thesis using q loop_sim[of "solve_init q gsize from" deg nb until]
    by (simp add: solve_generic_def)
qed

lemma solve_list:
  "solve g from until =
   list_loop (degree_flat g) (neighbour_flat g) until ([from], 1, replicate (f_size g) False)"
  by (simp add: solve_def solve_generic_list)

lemma solve_dyn_list:
  "solve_dyn g from until =
   list_loop (degree_dyn g) (neighbour_dyn g) until ([from], 1, replicate (d_size g) False)"
  by (simp add: solve_dyn_def solve_generic_list)

lemma list_loop_same:
  "0 \<le> x \<Longrightarrow> list_loop deg nb x (x # q, d, vis) = Some (Inr (d - 1))"
  by (subst list_loop.simps) (simp add: list_body_def)

lemma list_loop_empty: "list_loop deg nb until ([], d, vis) = Some (Inr IMPOSSIBLE)"
  by (subst list_loop.simps) simp

section \<open>The claims\<close>

text \<open>
  C8. For every sequence of enqueue and dequeue operations on a buffer made by
  \<^verbatim>\<open>make_circular_buffer\<close>, the dequeues hand out the values in first-in first-out
  order, as the list queue \<open>fifo_ops\<close> does, across any number of capacity doublings (and
  the two agree on a dequeue from an empty queue).
\<close>

theorem circular_buffer_fifo:
  "make_circular_buffer c = Some b \<Longrightarrow> run_ops b ops = fifo_ops [] ops"
  using run_ops_fifo[of b ops] make_ok[of c b] by simp

text \<open>Two hundred values through a buffer of capacity 128.\<close>

theorem circular_buffer_fifo_witness:
  "make_circular_buffer 128 =
     Some \<lparr>b_capacity = 128, b_start = 0, b_size = 0, b_elements = replicate 128 0\<rparr> \<and>
   run_ops \<lparr>b_capacity = 128, b_start = 0, b_size = 0, b_elements = replicate 128 0\<rparr>
     (map Enqueue (map int [0..<200]) @ replicate 200 Dequeue) =
   fifo_ops [] (map Enqueue (map int [0..<200]) @ replicate 200 Dequeue)"
  using circular_buffer_fifo[of 128
      "\<lparr>b_capacity = 128, b_start = 0, b_size = 0, b_elements = replicate 128 0\<rparr>"
      "map Enqueue (map int [0..<200]) @ replicate 200 Dequeue"]
  by (simp add: make_circular_buffer_def calloc_def)

text \<open>
  C5. For every graph (of either representation, well formed or not) and every city
  \<open>x\<close> (a non-negative identifier), \<^verbatim>\<open>solve(g, x, x)\<close> returns 0: the test
  \<^verbatim>\<open>head == until\<close> comes before any access to the graph.
\<close>

theorem solve_same_city:
  "0 \<le> x \<Longrightarrow> solve g x x = Some (Inr 0) \<and> solve_dyn g' x x = Some (Inr 0)"
  by (simp add: solve_list solve_dyn_list list_loop_same)

theorem solve_same_city_witness:
  "(0::int) \<le> 3 \<and> solve (zero_graph\<lparr>f_size := 5\<rparr>) 3 3 = Some (Inr 0) \<and>
   solve_dyn (make_graph 5) 3 3 = Some (Inr 0)"
  using solve_same_city[of 3 "zero_graph\<lparr>f_size := 5\<rparr>" "make_graph 5"] by simp

section \<open>Faults of the search\<close>

lemma list_visit_fault:
  "list_visit nb is st = Inl f \<Longrightarrow> f = OutOfBounds \<or> (\<exists>i. nb i = Inl f)"
proof (induction "is" arbitrary: st)
  case Nil
  then show ?case by (cases st) simp
next
  case (Cons i "is")
  obtain q vis where st: "st = (q, vis)" by (cases st)
  show ?case
  proof (cases "nb (int i)")
    case (Inl e)
    then show ?thesis using Cons.prems st by auto
  next
    case (Inr city)
    then show ?thesis using Cons.prems st Cons.IH
      by (auto split: if_splits)
  qed
qed

lemma list_body_fault:
  assumes "list_body deg nb until st = Inl f" "fst st \<noteq> []"
  shows "f = OutOfBounds \<or> (\<exists>h. deg h = Inl f) \<or> (\<exists>h i. nb h i = Inl f)"
proof -
  obtain q d vis where st: "st = (q, d, vis)" by (cases st)
  obtain head rest where q: "q = head # rest" using assms(2) st by (cases q) auto
  show ?thesis
  proof (cases "deg head")
    case (Inl e)
    then show ?thesis using assms(1) st q
      by (auto simp: list_body_def split: if_splits)
  next
    case (Inr dg)
    then show ?thesis using assms(1) st q list_visit_fault[of "nb head"]
      by (fastforce simp: list_body_def split: if_splits sum.splits)
  qed
qed

lemma list_loop_fault:
  assumes "list_loop deg nb until st = Some r"
  shows "\<forall>f. r = Inl f \<longrightarrow>
           f = OutOfBounds \<or> (\<exists>h. deg h = Inl f) \<or> (\<exists>h i. nb h i = Inl f)"
proof (rule list_loop.raw_induct[OF _ assms])
  fix loop deg nb until st r
  assume IH: "\<And>deg nb until st r. loop deg nb until st = Some r \<Longrightarrow>
      \<forall>f. r = Inl f \<longrightarrow>
           f = OutOfBounds \<or> (\<exists>h. deg h = Inl f) \<or> (\<exists>h i. nb h i = Inl f)"
    and eq: "(if fst st \<noteq> []
      then case list_body deg nb until st of Inl f \<Rightarrow> Some (Inl f)
           | Inr (Inl r) \<Rightarrow> Some (Inr r)
           | Inr (Inr st') \<Rightarrow> loop deg nb until st'
      else Some (Inr IMPOSSIBLE)) = Some r"
  show "\<forall>f. r = Inl f \<longrightarrow>
           f = OutOfBounds \<or> (\<exists>h. deg h = Inl f) \<or> (\<exists>h i. nb h i = Inl f)"
  proof (cases "fst st \<noteq> []")
    case False
    then show ?thesis using eq by auto
  next
    case True
    show ?thesis
    proof (cases "list_body deg nb until st")
      case (Inl e)
      then show ?thesis using eq True list_body_fault[OF Inl True] by auto
    next
      case (Inr p)
      then show ?thesis using eq True IH by (cases p) auto
    qed
  qed
qed

lemma degree_flat_fault: "degree_flat g h = Inl f \<Longrightarrow> f = OutOfBounds"
  by (auto simp: degree_flat_def array_get_def split: if_splits)

lemma neighbour_flat_fault: "neighbour_flat g h i = Inl f \<Longrightarrow> f = OutOfBounds"
  by (auto simp: neighbour_flat_def array_get_def bind_fault_def split: if_splits sum.splits)

lemma list_get_fault: "list_get xs i = Inl f \<Longrightarrow> f = OutOfBounds"
  by (auto simp: list_get_def split: if_splits)

lemma degree_dyn_fault: "degree_dyn g h = Inl f \<Longrightarrow> f = OutOfBounds"
  by (auto simp: degree_dyn_def dest: list_get_fault)

lemma neighbour_dyn_fault: "neighbour_dyn g h i = Inl f \<Longrightarrow> f = OutOfBounds"
  by (auto simp: neighbour_dyn_def bind_fault_def dest: list_get_fault split: sum.splits)

text \<open>
  C9. In no execution of \<^verbatim>\<open>solve\<close> (of either file, on any graph and any pair of cities) is
  \<^verbatim>\<open>circular_buffer_dequeue\<close> called on an empty buffer: the fault \<open>EmptyDequeue\<close>, which
  stands for the branch \<^verbatim>\<open>raise(SIGSEGV)\<close>, is not an outcome of \<^verbatim>\<open>solve\<close>.
\<close>

theorem solve_never_dequeues_empty:
  "solve g from until \<noteq> Some (Inl EmptyDequeue) \<and>
   solve_dyn g' from' until' \<noteq> Some (Inl EmptyDequeue)"
proof
  show "solve g from until \<noteq> Some (Inl EmptyDequeue)"
  proof
    assume "solve g from until = Some (Inl EmptyDequeue)"
    then have "list_loop (degree_flat g) (neighbour_flat g) until
        ([from], 1, replicate (f_size g) False) = Some (Inl EmptyDequeue)"
      by (simp add: solve_list)
    from list_loop_fault[OF this] show False
      by (auto dest: degree_flat_fault neighbour_flat_fault)
  qed
  show "solve_dyn g' from' until' \<noteq> Some (Inl EmptyDequeue)"
  proof
    assume "solve_dyn g' from' until' = Some (Inl EmptyDequeue)"
    then have "list_loop (degree_dyn g') (neighbour_dyn g') until'
        ([from'], 1, replicate (d_size g') False) = Some (Inl EmptyDequeue)"
      by (simp add: solve_dyn_list)
    from list_loop_fault[OF this] show False
      by (auto dest: degree_dyn_fault neighbour_dyn_fault)
  qed
qed

section \<open>The scenarios of the specification\<close>

lemmas flat_build_defs = build_graph_def zero_graph_def incr_degree_def bind_fault_def
  array_get_def array_set_def MAX_CITIES_def MAX_ROUTES_def insert_edge_def

lemmas dyn_build_defs = build_graph_dyn_def make_graph_def graph_add_airport_def
  graph_add_railway_def graph_ensure_capacity_def put_neighbour_def incr_degree_dyn_def
  bind_fault_def list_get_def list_set_def DEFAULT_CAPACITY_def calloc_def

lemmas flat_step_defs = list_body_def degree_flat_def neighbour_flat_def array_get_def
  bind_fault_def MAX_CITIES_def MAX_ROUTES_def upt_conv_Cons

lemmas dyn_step_defs = list_body_def degree_dyn_def neighbour_dyn_def list_get_def
  bind_fault_def upt_conv_Cons

lemmas print_defs = report_def print_result_def printf_d_def digit_char_def IMPOSSIBLE_def

lemma flat_no_routes: "main_flat 2 1 2 [] [] = Some (Inr (''Impossible'' @ [CHR 0x0A]))"
  apply (simp add: main_flat_def flat_build_defs upt_rec solve_list)
  apply (subst list_loop.simps, simp add: flat_step_defs)
  apply (simp add: list_loop_empty print_defs)
  done

lemma dyn_no_routes: "main_dyn junk 2 1 2 [] [] = Some (Inr (''Impossible'' @ [CHR 0x0A]))"
  apply (simp add: main_dyn_def dyn_build_defs solve_dyn_list)
  apply (subst list_loop.simps, simp add: dyn_step_defs)
  apply (simp add: list_loop_empty print_defs)
  done

lemma flat_two_airports: "main_flat 3 1 2 [1, 2] [] = Some (Inr (''2'' @ [CHR 0x0A]))"
  apply (simp add: main_flat_def flat_build_defs upt_rec solve_list)
  apply (subst list_loop.simps, simp add: flat_step_defs)+
  apply (simp add: print_defs)
  done

lemma dyn_two_airports: "main_dyn junk 3 1 2 [1, 2] [] = Some (Inr (''2'' @ [CHR 0x0A]))"
  apply (simp add: main_dyn_def dyn_build_defs solve_dyn_list)
  apply (subst list_loop.simps, simp add: dyn_step_defs)+
  apply (simp add: print_defs)
  done

section \<open>Runs and their iterations\<close>

lemma solve_loop_next:
  "loop_next deg nb until st = Some st' \<Longrightarrow>
   solve_loop deg nb until st = solve_loop deg nb until st'"
  by (subst solve_loop.simps)
     (auto simp: loop_next_def split: if_splits sum.splits progress.splits)

lemma solve_loop_iteration:
  "iteration deg nb until st k = Some st' \<Longrightarrow>
   solve_loop deg nb until st = solve_loop deg nb until st'"
proof (induction k arbitrary: st')
  case 0
  then show ?case by simp
next
  case (Suc k)
  then obtain st1 where "iteration deg nb until st k = Some st1"
    and "loop_next deg nb until st1 = Some st'"
    by (auto split: option.splits)
  then show ?case using Suc.IH solve_loop_next by simp
qed

lemma solve_loop_done:
  "b_size (queue st) = 0 \<Longrightarrow> solve_loop deg nb until st = Some (Inr IMPOSSIBLE)"
  by (subst solve_loop.simps) simp

text \<open>
  C7. When, after some number of iterations of a run of \<^verbatim>\<open>solve\<close>, the queue is empty (so
  that no iteration has returned), \<^verbatim>\<open>solve\<close> returns \<^verbatim>\<open>IMPOSSIBLE\<close>, for which \<^verbatim>\<open>main\<close> prints
  the line \<^verbatim>\<open>Impossible\<close>; and on the input N=2, M=0, K=0, S=1, T=2 both programs print
  \<^verbatim>\<open>Impossible\<close>.
\<close>

theorem impossible_when_queue_empties:
  assumes "make_circular_buffer DEFAULT_CAPACITY = Some q"
    and "iteration deg nb until (solve_init q gsize from) k = Some st"
    and "b_size (queue st) = 0"
  shows "solve_generic deg nb gsize from until = Some (Inr IMPOSSIBLE) \<and>
         report (Some (Inr IMPOSSIBLE)) = Some (Inr (''Impossible'' @ [CHR 0x0A])) \<and>
         main_flat 2 1 2 [] [] = Some (Inr (''Impossible'' @ [CHR 0x0A])) \<and>
         main_dyn junk 2 1 2 [] [] = Some (Inr (''Impossible'' @ [CHR 0x0A]))"
proof -
  have "solve_generic deg nb gsize from until =
        solve_loop deg nb until (solve_init q gsize from)"
    using assms(1) by (simp add: solve_generic_def)
  also have "\<dots> = solve_loop deg nb until st"
    using solve_loop_iteration[OF assms(2)] .
  also have "\<dots> = Some (Inr IMPOSSIBLE)"
    using solve_loop_done[OF assms(3)] .
  finally show ?thesis
    using flat_no_routes dyn_no_routes by (simp add: report_def print_result_def)
qed

text \<open>
  The run of \<^verbatim>\<open>solve(1, 2)\<close> on three cities without edges: after one iteration the queue
  is empty.
\<close>

theorem impossible_when_queue_empties_witness:
  "make_circular_buffer DEFAULT_CAPACITY =
     Some \<lparr>b_capacity = 128, b_start = 0, b_size = 0, b_elements = replicate 128 0\<rparr> \<and>
   iteration (degree_flat (zero_graph\<lparr>f_size := 3\<rparr>)) (neighbour_flat (zero_graph\<lparr>f_size := 3\<rparr>)) 2
     (solve_init \<lparr>b_capacity = 128, b_start = 0, b_size = 0, b_elements = replicate 128 0\<rparr> 3 1)
     (Suc 0) =
     Some \<lparr>queue = \<lparr>b_capacity = 128, b_start = 1, b_size = 0,
                     b_elements = (replicate 128 0)[0 := 1]\<rparr>,
           distance = 1, visited = replicate 3 False\<rparr> \<and>
   b_size (queue \<lparr>queue = \<lparr>b_capacity = 128, b_start = 1, b_size = 0,
                     b_elements = (replicate 128 0)[0 := 1]\<rparr>,
           distance = 1, visited = replicate 3 False\<rparr>) = 0 \<and>
   solve_generic (degree_flat (zero_graph\<lparr>f_size := 3\<rparr>)) (neighbour_flat (zero_graph\<lparr>f_size := 3\<rparr>))
     3 1 2 = Some (Inr IMPOSSIBLE) \<and>
   report (Some (Inr IMPOSSIBLE)) = Some (Inr (''Impossible'' @ [CHR 0x0A])) \<and>
   main_flat 2 1 2 [] [] = Some (Inr (''Impossible'' @ [CHR 0x0A])) \<and>
   main_dyn 0 2 1 2 [] [] = Some (Inr (''Impossible'' @ [CHR 0x0A]))"
proof -
  let ?B = "\<lparr>b_capacity = 128, b_start = 0, b_size = 0, b_elements = replicate 128 0\<rparr>"
  let ?S = "\<lparr>queue = \<lparr>b_capacity = 128, b_start = 1, b_size = 0,
                     b_elements = (replicate 128 0)[0 := 1]\<rparr>,
           distance = 1, visited = replicate 3 False\<rparr>"
  let ?g = "zero_graph\<lparr>f_size := 3\<rparr>"
  have 1: "make_circular_buffer DEFAULT_CAPACITY = Some ?B"
    by (simp add: make_circular_buffer_def DEFAULT_CAPACITY_def calloc_def)
  have init: "solve_init ?B 3 1 =
      \<lparr>queue = \<lparr>b_capacity = 128, b_start = 0, b_size = 1,
                 b_elements = (replicate 128 0)[0 := 1]\<rparr>,
       distance = 1, visited = replicate 3 False\<rparr>"
    by (simp add: solve_init_def circular_buffer_enqueue_def)
  have 2: "iteration (degree_flat ?g) (neighbour_flat ?g) 2 (solve_init ?B 3 1) (Suc 0) = Some ?S"
    unfolding init
    by (simp add: loop_next_def solve_body_def circular_buffer_dequeue_def degree_flat_def
        array_get_def MAX_CITIES_def zero_graph_def)
  have 3: "b_size (queue ?S) = 0" by simp
  show ?thesis
    using impossible_when_queue_empties[OF 1 2 3, of 0] 1 2 by simp
qed

text \<open>
  C1, as the code has it. On the input N=3, M=0, K=2 with airports 1 and 2, S=1, T=2, both
  programs print \<^verbatim>\<open>2\<close>: the trip from airport to hub to airport is two edges of the
  augmented graph, and \<^verbatim>\<open>solve\<close> reports the number of edges without any discount for
  the hub.
\<close>

theorem two_airports_print_2:
  "main_flat 3 1 2 [1, 2] [] = Some (Inr (''2'' @ [CHR 0x0A])) \<and>
   main_dyn junk 3 1 2 [1, 2] [] = Some (Inr (''2'' @ [CHR 0x0A]))"
  using flat_two_airports dyn_two_airports by simp

text \<open>C1 as stated fails: the output on that input is not \<^verbatim>\<open>1\<close>.\<close>

theorem two_airports_not_1:
  "main_flat 3 1 2 [1, 2] [] \<noteq> Some (Inr (''1'' @ [CHR 0x0A])) \<and>
   main_dyn 0 3 1 2 [1, 2] [] \<noteq> Some (Inr (''1'' @ [CHR 0x0A]))"
  using flat_two_airports dyn_two_airports[of 0] by simp

section \<open>Iterations of the buffer search and of the list search\<close>

lemma next_sim:
  assumes "buffer_ok (queue st)"
  shows "map_option abstraction (loop_next deg nb until st) =
           list_next deg nb until (abstraction st) \<and>
         (\<forall>st'. loop_next deg nb until st = Some st' \<longrightarrow> buffer_ok (queue st'))"
proof (cases "b_size (queue st) > 0")
  case False
  then show ?thesis
    by (simp add: loop_next_def list_next_def abstraction_def contents_Nil_iff)
next
  case True
  then have ne: "fst (abstraction st) \<noteq> []"
    by (simp add: abstraction_def contents_Nil_iff)
  show ?thesis
  proof (cases "solve_body deg nb until st")
    case (Inl f)
    then show ?thesis using body_sim[OF assms, of deg nb until] True ne
      by (simp add: loop_next_def list_next_def)
  next
    case (Inr p)
    then show ?thesis using body_sim[OF assms, of deg nb until] True ne
      by (cases p) (simp_all add: loop_next_def list_next_def)
  qed
qed

lemma iteration_sim:
  assumes "buffer_ok (queue st)"
  shows "map_option abstraction (iteration deg nb until st k) =
           list_iteration deg nb until (abstraction st) k \<and>
         (\<forall>st'. iteration deg nb until st k = Some st' \<longrightarrow> buffer_ok (queue st'))"
proof (induction k)
  case 0
  then show ?case using assms by simp
next
  case (Suc k)
  show ?case
  proof (cases "iteration deg nb until st k")
    case None
    then show ?thesis using Suc by simp
  next
    case (Some st1)
    then have "buffer_ok (queue st1)"
      and "list_iteration deg nb until (abstraction st) k = Some (abstraction st1)"
      using Suc by auto
    then show ?thesis using Some next_sim[of st1 deg nb until] by simp
  qed
qed

lemma init_abstraction:
  assumes "make_circular_buffer c = Some q"
  shows "buffer_ok (queue (solve_init q gsize from)) \<and>
         abstraction (solve_init q gsize from) = ([from], 1, replicate gsize False)"
proof -
  have ok: "buffer_ok q" and c: "contents q = []" using make_ok[OF assms] by simp_all
  show ?thesis
    using enqueue_ok[OF ok, of "from"] enqueue_contents[OF ok, of "from"] c
    by (simp add: solve_init_def abstraction_def)
qed

lemma run_sim:
  assumes "make_circular_buffer c = Some q"
  shows "map_option abstraction (iteration deg nb until (solve_init q gsize from) k) =
         list_iteration deg nb until ([from], 1, replicate gsize False) k"
  using iteration_sim[of "solve_init q gsize from" deg nb until k] init_abstraction[OF assms]
  by simp

section \<open>What one iteration enqueues\<close>

lemma list_visit_fresh:
  "list_visit nb is (q, vis) = Inr (q', vis') \<Longrightarrow> q' = q @ fresh nb is vis"
proof (induction "is" arbitrary: q vis)
  case Nil
  then show ?case by simp
next
  case (Cons i "is")
  show ?case
  proof (cases "nb (int i)")
    case (Inl f)
    then show ?thesis using Cons.prems by simp
  next
    case (Inr city)
    show ?thesis
    proof (cases "0 \<le> city \<and> nat city < length vis")
      case False
      then show ?thesis using Inr Cons.prems by auto
    next
      case inb: True
      show ?thesis
      proof (cases "vis ! nat city")
        case True
        then show ?thesis using Inr inb Cons.prems Cons.IH[of q vis] by simp
      next
        case False
        then have "q' = (q @ [city]) @ fresh nb is (vis[nat city := True])"
          using Inr inb Cons.prems Cons.IH[of "q @ [city]" "vis[nat city := True]"] by simp
        then show ?thesis using Inr inb False by simp
      qed
    qed
  qed
qed

lemma fresh_nonneg: "c \<in> set (fresh nb is vis) \<Longrightarrow> 0 \<le> c"
proof (induction "is" arbitrary: vis)
  case Nil
  then show ?case by simp
next
  case (Cons i "is")
  then show ?case
    by (cases "nb (int i)") (auto split: if_splits)
qed

lemma markers_append [simp]: "markers (xs @ ys) = markers xs @ markers ys"
  by (simp add: markers_def)

lemma markers_cities: "\<forall>c\<in>set xs. 0 \<le> c \<Longrightarrow> markers xs = []"
  by (induction xs) (auto simp: markers_def)

lemma markers_fresh [simp]: "markers (fresh nb is vis) = []"
  by (rule markers_cities) (auto dest: fresh_nonneg)

lemma list_next_marker:
  "head < 0 \<Longrightarrow> list_next deg nb until (head # rest, d, vis) = Some (rest, - head, vis)"
  by (simp add: list_next_def list_body_def)

lemma list_next_city:
  assumes "list_next deg nb until (head # rest, d, vis) = Some st'" "0 \<le> head"
  shows "head \<noteq> until \<and>
         (\<exists>dg vis'. deg head = Inr dg \<and>
            st' = (rest @ (if 0 < dg then [- d - 1] else []) @
                     fresh (nb head) [0..<nat dg] vis, d, vis'))"
proof -
  have ne: "head \<noteq> until" using assms
    by (auto simp: list_next_def list_body_def split: if_splits)
  obtain dg where dg: "deg head = Inr dg" using assms ne
    by (cases "deg head") (auto simp: list_next_def list_body_def split: if_splits)
  let ?q = "if 0 < dg then rest @ [- d - 1] else rest"
  obtain q' vis' where v: "list_visit (nb head) [0..<nat dg] (?q, vis) = Inr (q', vis')"
    and st': "st' = (q', d, vis')"
    using assms ne dg
    by (cases "list_visit (nb head) [0..<nat dg] (?q, vis)")
       (auto simp: list_next_def list_body_def split: if_splits)
  from list_visit_fresh[OF v] show ?thesis using ne dg st' by auto
qed

section \<open>The markers of a run\<close>

lemma markers_Cons_marker: "x < 0 \<Longrightarrow> markers (x # q) = - x # markers q"
  by (simp add: markers_def)

lemma markers_Cons_city: "0 \<le> x \<Longrightarrow> markers (x # q) = markers q"
  by (simp add: markers_def)

lemma markers_Nil [simp]: "markers [] = []"
  by (simp add: markers_def)

lemma marker_inv_init: "marker_inv ([from], 1, vis)"
  by (cases "from < 0") (auto simp: marker_inv_def markers_def)

lemma marker_inv_next:
  assumes "marker_inv st" "list_next deg nb until st = Some st'"
  shows "marker_inv st' \<and> fst (snd st) \<le> fst (snd st')"
proof -
  obtain q d vis where st: "st = (q, d, vis)" by (cases st)
  obtain head rest where q: "q = head # rest"
    using assms(2) st by (cases q) (auto simp: list_next_def)
  show ?thesis
  proof (cases "head < 0")
    case True
    then have st': "st' = (rest, - head, vis)"
      using assms(2) st q list_next_marker[of head deg nb until rest d vis] by simp
    have m: "markers q = - head # markers rest" using True q by (simp add: markers_Cons_marker)
    have sorted: "sorted (d # - head # markers rest)"
      and bound: "(\<forall>m\<in>set (markers rest). m \<le> d + 1) \<or> (\<forall>x\<in>set rest. x < 0)"
      and d1: "1 \<le> d"
      using assms(1) st q m by (auto simp: marker_inv_def)
    have le: "d \<le> - head" using sorted by simp
    have "(\<forall>m\<in>set (markers rest). m \<le> - head + 1) \<or> (\<forall>x\<in>set rest. x < 0)"
      using bound le by fastforce
    then show ?thesis using sorted le st st' d1 by (simp add: marker_inv_def)
  next
    case False
    then have pos: "0 \<le> head" by simp
    from list_next_city[OF assms(2)[unfolded st q] pos] obtain dg vis' where
      st': "st' = (rest @ (if 0 < dg then [- d - 1] else []) @
                     fresh (nb head) [0..<nat dg] vis, d, vis')" by blast
    have m: "markers q = markers rest" using pos q by (simp add: markers_Cons_city)
    have sorted: "sorted (d # markers rest)"
      and bound: "\<forall>m\<in>set (markers rest). m \<le> d + 1" and d1: "1 \<le> d"
      using assms(1) st q m pos by (auto simp: marker_inv_def)
    have m': "markers (fst st') = markers rest @ (if 0 < dg then [d + 1] else [])"
      using st' d1 by (simp add: markers_Cons_marker)
    have "sorted (d # markers (fst st'))"
      using sorted bound unfolding m' by (auto simp: sorted_append)
    moreover have "\<forall>m\<in>set (markers (fst st')). m \<le> d + 1"
      using bound unfolding m' by auto
    ultimately show ?thesis using st st' d1 by (simp add: marker_inv_def)
  qed
qed

lemma marker_inv_iteration:
  "marker_inv st \<Longrightarrow> list_iteration deg nb until st k = Some st' \<Longrightarrow> marker_inv st'"
proof (induction k arbitrary: st')
  case 0
  then show ?case by simp
next
  case (Suc k)
  then obtain st1 where "list_iteration deg nb until st k = Some st1"
    and "list_next deg nb until st1 = Some st'"
    by (auto split: option.splits)
  then show ?case using Suc.IH[OF Suc.prems(1)] marker_inv_next by blast
qed


section \<open>The example run\<close>

lemma star_size: "f_size star_graph = 5"
  by (simp add: star_graph_def flat_build_defs upt_rec)

lemma star_next_0:
  "list_next (degree_flat star_graph) (neighbour_flat star_graph) 4
     ([1], 1, [False, False, False, False, False]) =
   Some ([- 2, 2, 3], 1, [False, False, True, True, False])"
  by (simp add: star_graph_def flat_build_defs upt_rec list_next_def flat_step_defs)

lemma star_next_1:
  "list_next (degree_flat star_graph) (neighbour_flat star_graph) 4
     ([- 2, 2, 3], 1, [False, False, True, True, False]) =
   Some ([2, 3], 2, [False, False, True, True, False])"
  by (simp add: list_next_marker)

lemma star_next_2:
  "list_next (degree_flat star_graph) (neighbour_flat star_graph) 4
     ([2, 3], 2, [False, False, True, True, False]) =
   Some ([3, - 3, 1], 2, [False, True, True, True, False])"
  by (simp add: star_graph_def flat_build_defs upt_rec list_next_def flat_step_defs)

lemma star_next_3:
  "list_next (degree_flat star_graph) (neighbour_flat star_graph) 4
     ([3, - 3, 1], 2, [False, True, True, True, False]) =
   Some ([- 3, 1, - 3], 2, [False, True, True, True, False])"
  by (simp add: star_graph_def flat_build_defs upt_rec list_next_def flat_step_defs)

lemma star_fresh_3:
  "fresh (neighbour_flat star_graph 3) [0..<1] [False, True, True, True, False] = []"
  by (simp add: star_graph_def flat_build_defs upt_rec flat_step_defs)

lemma star_degree_3: "degree_flat star_graph 3 = Inr 1"
  by (simp add: star_graph_def flat_build_defs upt_rec flat_step_defs)

lemma star_run_list:
  "star_run k =
   list_iteration (degree_flat star_graph) (neighbour_flat star_graph) 4
     ([1], 1, [False, False, False, False, False]) k"
proof -
  have mk: "make_circular_buffer DEFAULT_CAPACITY =
            Some (the (make_circular_buffer DEFAULT_CAPACITY))"
    by (simp add: make_circular_buffer_def DEFAULT_CAPACITY_def)
  have "replicate 5 False = [False, False, False, False, False]"
    by (simp add: numeral_eq_Suc)
  then show ?thesis
    using run_sim[OF mk, of "degree_flat star_graph" "neighbour_flat star_graph" 4 5 1 k]
    by (simp add: star_run_def star_iteration_def star_size)
qed

lemma star_run_0: "star_run 0 = Some ([1], 1, [False, False, False, False, False])"
  by (simp add: star_run_list)

lemma star_run_1: "star_run (Suc 0) = Some ([- 2, 2, 3], 1, [False, False, True, True, False])"
  using star_run_0 star_next_0 by (simp add: star_run_list)

lemma star_run_2:
  "star_run (Suc (Suc 0)) = Some ([2, 3], 2, [False, False, True, True, False])"
  using star_run_1 star_next_1 by (simp add: star_run_list)

lemma star_run_3:
  "star_run (Suc (Suc (Suc 0))) = Some ([3, - 3, 1], 2, [False, True, True, True, False])"
  using star_run_2 star_next_2 by (simp add: star_run_list)

lemma star_run_4:
  "star_run (Suc (Suc (Suc (Suc 0)))) =
   Some ([- 3, 1, - 3], 2, [False, True, True, True, False])"
  using star_run_3 star_next_3 by (simp add: star_run_list)


lemma star_make:
  "make_circular_buffer DEFAULT_CAPACITY = Some (the (make_circular_buffer DEFAULT_CAPACITY))"
  by (simp add: make_circular_buffer_def DEFAULT_CAPACITY_def)

lemma star_iteration_Some:
  "star_run k = Some ast \<Longrightarrow>
   star_iteration k = Some (the (star_iteration k)) \<and>
   abstraction (the (star_iteration k)) = ast"
  by (auto simp: star_run_def)

lemma star_iteration_Suc:
  "star_iteration k = Some st \<Longrightarrow>
   star_iteration (Suc k) = loop_next (degree_flat star_graph) (neighbour_flat star_graph) 4 st"
  by (simp add: star_iteration_def)

text \<open>
  C3, as the code has it. In every run of \<^verbatim>\<open>solve\<close>, an iteration that dequeues a city
  \<^verbatim>\<open>head\<close> and goes on enqueues the level marker \<^verbatim>\<open>-distance - 1\<close> exactly when the degree of
  \<^verbatim>\<open>head\<close> is positive, before the unvisited neighbours of \<^verbatim>\<open>head\<close>: one marker for each
  dequeued city that has neighbours, whether or not any of them is still unvisited, and none
  for a city without neighbours.
\<close>

theorem marker_for_each_city_with_neighbours:
  assumes "make_circular_buffer DEFAULT_CAPACITY = Some q"
    and "iteration deg nb until (solve_init q gsize from) k = Some st"
    and "contents (queue st) = head # rest"
    and "0 \<le> head"
    and "loop_next deg nb until st = Some st'"
  shows "\<exists>d. deg head = Inr d \<and>
           contents (queue st') =
             rest @ (if 0 < d then [- distance st - 1] else []) @
             fresh (nb head) [0..<nat d] (visited st) \<and>
           markers (contents (queue st')) =
             markers rest @ (if 0 < d then [distance st + 1] else [])"
proof -
  have ok: "buffer_ok (queue st)"
    and it: "list_iteration deg nb until ([from], 1, replicate gsize False) k =
               Some (abstraction st)"
    using iteration_sim[of "solve_init q gsize from" deg nb until k]
      init_abstraction[OF assms(1), of gsize "from"] assms(2) by auto
  have "marker_inv (abstraction st)"
    using marker_inv_iteration[OF marker_inv_init it] .
  then have d1: "1 \<le> distance st" by (simp add: marker_inv_def abstraction_def)
  have "list_next deg nb until (head # rest, distance st, visited st) = Some (abstraction st')"
    using next_sim[OF ok, of deg nb until] assms(3,5) by (simp add: abstraction_def)
  from list_next_city[OF this assms(4)] obtain d vis' where d: "deg head = Inr d"
    and st': "abstraction st' =
      (rest @ (if 0 < d then [- distance st - 1] else []) @
         fresh (nb head) [0..<nat d] (visited st), distance st, vis')" by blast
  have c: "contents (queue st') =
      rest @ (if 0 < d then [- distance st - 1] else []) @
         fresh (nb head) [0..<nat d] (visited st)"
    using st' by (simp add: abstraction_def)
  have "markers (contents (queue st')) =
      markers rest @ (if 0 < d then [distance st + 1] else [])"
    unfolding c using d1 by (simp add: markers_Cons_marker)
  with d c show ?thesis by blast
qed

text \<open>
  The fourth iteration of the example run dequeues city 3, whose only neighbour is visited,
  and enqueues a marker.
\<close>

theorem marker_for_each_city_with_neighbours_witness:
  "make_circular_buffer DEFAULT_CAPACITY = Some (the (make_circular_buffer DEFAULT_CAPACITY)) \<and>
   iteration (degree_flat star_graph) (neighbour_flat star_graph) 4
     (solve_init (the (make_circular_buffer DEFAULT_CAPACITY)) 5 1) 3 =
     Some (the (star_iteration 3)) \<and>
   contents (queue (the (star_iteration 3))) = [3, - 3, 1] \<and>
   (0::int) \<le> 3 \<and>
   loop_next (degree_flat star_graph) (neighbour_flat star_graph) 4 (the (star_iteration 3)) =
     Some (the (star_iteration 4)) \<and>
   (\<exists>d. degree_flat star_graph 3 = Inr d \<and>
      contents (queue (the (star_iteration 4))) =
        [- 3, 1] @ (if 0 < d then [- distance (the (star_iteration 3)) - 1] else []) @
        fresh (neighbour_flat star_graph 3) [0..<nat d] (visited (the (star_iteration 3))) \<and>
      markers (contents (queue (the (star_iteration 4)))) =
        markers [- 3, 1] @ (if 0 < d then [distance (the (star_iteration 3)) + 1] else []))"
proof -
  let ?D = "degree_flat star_graph" and ?N = "neighbour_flat star_graph"
  let ?q = "the (make_circular_buffer DEFAULT_CAPACITY)"
  have s3: "star_iteration 3 = Some (the (star_iteration 3))"
    and a3: "abstraction (the (star_iteration 3)) =
               ([3, - 3, 1], 2, [False, True, True, True, False])"
    using star_iteration_Some[OF star_run_3] by (simp_all add: numeral_3_eq_3)
  have s4: "star_iteration 4 = Some (the (star_iteration 4))"
    using star_iteration_Some[OF star_run_4] by (simp add: numeral_eq_Suc)
  have it: "iteration ?D ?N 4 (solve_init ?q 5 1) 3 = Some (the (star_iteration 3))"
    using s3 by (simp add: star_iteration_def star_size)
  have c: "contents (queue (the (star_iteration 3))) = [3, - 3, 1]"
    using a3 by (simp add: abstraction_def)
  have "star_iteration (Suc 3) = loop_next ?D ?N 4 (the (star_iteration 3))"
    using star_iteration_Suc[OF s3] .
  then have nx: "loop_next ?D ?N 4 (the (star_iteration 3)) = Some (the (star_iteration 4))"
    using s4 by simp
  show ?thesis
    using marker_for_each_city_with_neighbours[OF star_make it c _ nx] star_make it c nx
    by simp
qed

text \<open>
  C3 as stated fails in the example run. After three iterations the queue is \<open>[3, -3, 1]\<close>
  with \<^verbatim>\<open>distance = 2\<close>: cities 2 and 3 are one frontier, and city 2 has enqueued the
  marker \<open>-3\<close>. The only neighbour of city 3 is visited, so the \<^verbatim>\<open>for\<close> loop enqueues
  nothing; all the same the fourth iteration enqueues a second marker \<open>-3\<close>.
\<close>

theorem marker_without_unvisited_neighbour:
  "star_run 3 = Some ([3, - 3, 1], 2, [False, True, True, True, False]) \<and>
   degree_flat star_graph 3 = Inr 1 \<and>
   fresh (neighbour_flat star_graph 3) [0..<1] [False, True, True, True, False] = [] \<and>
   star_run 4 = Some ([- 3, 1, - 3], 2, [False, True, True, True, False])"
  using star_run_3 star_run_4 star_degree_3 star_fresh_3 by (simp add: numeral_eq_Suc)

text \<open>
  C4 on the code. After the initialisation of \<^verbatim>\<open>solve(1, 4)\<close> in the example run,
  \<^verbatim>\<open>distance\<close> is 1 and the queue holds the source only, but the flag of the source is
  false like all others: \<^verbatim>\<open>solve\<close> never sets \<^verbatim>\<open>visited[from]\<close>, although it sets the flag of
  every city it enqueues in the loop. So city 2 enqueues the source a second time in the
  third iteration.
\<close>

theorem source_left_unvisited:
  "star_run 0 = Some ([1], 1, [False, False, False, False, False]) \<and>
   star_run 3 = Some ([3, - 3, 1], 2, [False, True, True, True, False])"
  using star_run_0 star_run_3 by (simp add: numeral_eq_Suc)


section \<open>The for loop on a well-formed graph\<close>

lemma vset_update:
  "nat c < length vis \<Longrightarrow> 0 \<le> c \<Longrightarrow> vset (vis[nat c := True]) = insert c (vset vis)"
  by (auto simp: vset_def nth_list_update)

lemma filter_Not_update:
  "i < length vis \<Longrightarrow> \<not> vis ! i \<Longrightarrow>
   Suc (length (filter Not (vis[i := True]))) = length (filter Not vis)"
proof (induction vis arbitrary: i)
  case Nil
  then show ?case by simp
next
  case (Cons b vis)
  then show ?case by (cases i) auto
qed

lemma list_visit_wf:
  assumes "\<forall>i\<in>set is. \<exists>w. nb (int i) = Inr w \<and> 0 \<le> w \<and> nat w < length vis"
  shows "\<exists>vis'. list_visit nb is (q, vis) = Inr (q @ fresh nb is vis, vis') \<and>
           length vis' = length vis \<and>
           vset vis' = vset vis \<union> set (fresh nb is vis) \<and>
           set (fresh nb is vis) = {w. \<exists>i\<in>set is. nb (int i) = Inr w} - vset vis \<and>
           length (filter Not vis') + length (fresh nb is vis) = length (filter Not vis)"
  using assms
proof (induction "is" arbitrary: q vis)
  case Nil
  then show ?case by simp
next
  case (Cons i "is")
  from Cons.prems obtain w where w: "nb (int i) = Inr w" "0 \<le> w" "nat w < length vis"
    by auto
  show ?case
  proof (cases "vis ! nat w")
    case True
    have rest: "\<forall>i\<in>set is. \<exists>w. nb (int i) = Inr w \<and> 0 \<le> w \<and> nat w < length vis"
      using Cons.prems by simp
    from Cons.IH[OF rest, of q] obtain vis' where
      IH: "list_visit nb is (q, vis) = Inr (q @ fresh nb is vis, vis')"
      "length vis' = length vis" "vset vis' = vset vis \<union> set (fresh nb is vis)"
      "set (fresh nb is vis) = {w. \<exists>i\<in>set is. nb (int i) = Inr w} - vset vis"
      "length (filter Not vis') + length (fresh nb is vis) = length (filter Not vis)"
      by blast
    have wv: "w \<in> vset vis" using True w by (simp add: vset_def)
    have "set (fresh nb (i # is) vis) = {w. \<exists>i\<in>set (i # is). nb (int i) = Inr w} - vset vis"
      using True w IH(4) wv by auto
    then show ?thesis using True w IH by auto
  next
    case False
    let ?vis = "vis[nat w := True]"
    have rest: "\<forall>i\<in>set is. \<exists>w. nb (int i) = Inr w \<and> 0 \<le> w \<and> nat w < length ?vis"
      using Cons.prems by simp
    from Cons.IH[OF rest, of "q @ [w]"] obtain vis' where
      IH: "list_visit nb is (q @ [w], ?vis) = Inr ((q @ [w]) @ fresh nb is ?vis, vis')"
      "length vis' = length ?vis" "vset vis' = vset ?vis \<union> set (fresh nb is ?vis)"
      "set (fresh nb is ?vis) = {w. \<exists>i\<in>set is. nb (int i) = Inr w} - vset ?vis"
      "length (filter Not vis') + length (fresh nb is ?vis) = length (filter Not ?vis)"
      by blast
    have vs: "vset ?vis = insert w (vset vis)" using w by (simp add: vset_update)
    have wv: "w \<notin> vset vis" using False w by (simp add: vset_def)
    have fr: "fresh nb (i # is) vis = w # fresh nb is ?vis" using False w by simp
    have 1: "list_visit nb (i # is) (q, vis) = Inr (q @ fresh nb (i # is) vis, vis')"
      using False w IH(1) by simp
    have 2: "vset vis' = vset vis \<union> set (fresh nb (i # is) vis)"
      using IH(3) vs fr by auto
    have 3: "set (fresh nb (i # is) vis) =
        {w. \<exists>i\<in>set (i # is). nb (int i) = Inr w} - vset vis"
      using IH(4) vs fr wv w(1) by auto
    have 4: "length (filter Not vis') + length (fresh nb (i # is) vis) =
        length (filter Not vis)"
      using IH(5) fr filter_Not_update[OF w(3) False] by simp
    show ?thesis using 1 2 3 4 IH(2) by auto
  qed
qed

lemma tagged_append_marker:
  "m < 0 \<Longrightarrow> \<forall>c\<in>set cs. 0 \<le> c \<Longrightarrow>
   tagged d (rest @ m # cs) = tagged d rest @ map (\<lambda>c. (c, - m)) cs"
proof (induction rest arbitrary: d)
  case Nil
  have "tagged e cs = map (\<lambda>c. (c, e)) cs" if "\<forall>c\<in>set cs. 0 \<le> c" for e
    using that by (induction cs) auto
  then show ?case using Nil by simp
next
  case (Cons x rest)
  then show ?case by simp
qed

lemma tagged_cities: "(x, t) \<in> set (tagged d q) \<Longrightarrow> x \<in> set q \<and> 0 \<le> x"
proof (induction q arbitrary: d)
  case Nil
  then show ?case by simp
next
  case (Cons y q)
  then show ?case by (auto split: if_splits)
qed

section \<open>The invariant, by its parts\<close>

lemma bfs_invI:
  assumes "\<And>x t. (x, t) \<in> set (tagged d q) \<Longrightarrow> 0 \<le> x \<and> nat x < length vis \<and> 1 \<le> t"
    and "sorted (map snd (tagged d q))"
    and "\<And>x t. (x, t) \<in> set (tagged d q) \<Longrightarrow> t \<le> snd (hd (tagged d q)) + 1"
    and "\<And>x t. (x, t) \<in> set (tagged d q) \<Longrightarrow>
           dist_is deg nb from x (nat (t - 1)) \<or>
           (x = from \<and> from \<noteq> until \<and> processed deg nb until vis from)"
    and "\<And>v. v \<in> vset vis \<or> v = from \<Longrightarrow>
           processed deg nb until vis v \<or>
           (\<exists>t. (v, t) \<in> set (tagged d q) \<and> dist_is deg nb from v (nat (t - 1)))"
    and "\<And>k. tagged d q \<noteq> [] \<Longrightarrow> int k < snd (hd (tagged d q)) \<Longrightarrow>
           walks deg nb from k \<subseteq> vset vis \<union> {from}"
  shows "bfs_inv deg nb from until (q, d, vis)"
proof -
  have 1: "\<forall>p\<in>set (tagged d q). 0 \<le> fst p \<and> nat (fst p) < length vis \<and> 1 \<le> snd p"
    using assms(1) by (metis prod.collapse)
  have 3: "\<forall>p\<in>set (tagged d q). snd p \<le> snd (hd (tagged d q)) + 1"
    using assms(3) by (metis prod.collapse)
  have 4: "\<forall>p\<in>set (tagged d q).
           dist_is deg nb from (fst p) (nat (snd p - 1)) \<or>
           (fst p = from \<and> from \<noteq> until \<and> processed deg nb until vis from)"
    using assms(4) by (metis prod.collapse)
  have 5: "\<forall>v. v \<in> vset vis \<or> v = from \<longrightarrow>
           processed deg nb until vis v \<or>
           (\<exists>t. (v, t) \<in> set (tagged d q) \<and> dist_is deg nb from v (nat (t - 1)))"
    using assms(5) by blast
  have 6: "tagged d q \<noteq> [] \<longrightarrow>
           (\<forall>k. int k < snd (hd (tagged d q)) \<longrightarrow>
              walks deg nb from k \<subseteq> vset vis \<union> {from})"
    using assms(6) by blast
  show ?thesis
    unfolding bfs_inv_def prod.case using 1 assms(2) 3 4 5 6 by (intro conjI)
qed

lemma bfs_inv_rng:
  "bfs_inv deg nb from until (q, d, vis) \<Longrightarrow> (x, t) \<in> set (tagged d q) \<Longrightarrow>
   0 \<le> x \<and> nat x < length vis \<and> 1 \<le> t"
  unfolding bfs_inv_def prod.case by (elim conjE) (drule bspec, assumption, simp)

lemma bfs_inv_sorted:
  "bfs_inv deg nb from until (q, d, vis) \<Longrightarrow> sorted (map snd (tagged d q))"
  unfolding bfs_inv_def prod.case by (elim conjE)

lemma bfs_inv_bound:
  "bfs_inv deg nb from until (q, d, vis) \<Longrightarrow> (x, t) \<in> set (tagged d q) \<Longrightarrow>
   t \<le> snd (hd (tagged d q)) + 1"
  unfolding bfs_inv_def prod.case
  by (elim conjE) (drule bspec[where x = "(x, t)"], assumption, drule bspec[where x = "(x, t)"], assumption, simp)

lemma bfs_inv_valid:
  "bfs_inv deg nb from until (q, d, vis) \<Longrightarrow> (x, t) \<in> set (tagged d q) \<Longrightarrow>
   dist_is deg nb from x (nat (t - 1)) \<or>
   (x = from \<and> from \<noteq> until \<and> processed deg nb until vis from)"
proof -
  assume inv: "bfs_inv deg nb from until (q, d, vis)" and p: "(x, t) \<in> set (tagged d q)"
  have "\<forall>p\<in>set (tagged d q).
           dist_is deg nb from (fst p) (nat (snd p - 1)) \<or>
           (fst p = from \<and> from \<noteq> until \<and> processed deg nb until vis from)"
    using inv unfolding bfs_inv_def prod.case by (elim conjE)
  from bspec[OF this p] show ?thesis by simp
qed

lemma bfs_inv_cover:
  "bfs_inv deg nb from until (q, d, vis) \<Longrightarrow> v \<in> vset vis \<or> v = from \<Longrightarrow>
   processed deg nb until vis v \<or>
   (\<exists>t. (v, t) \<in> set (tagged d q) \<and> dist_is deg nb from v (nat (t - 1)))"
proof -
  assume inv: "bfs_inv deg nb from until (q, d, vis)" and v: "v \<in> vset vis \<or> v = from"
  have "\<forall>v. v \<in> vset vis \<or> v = from \<longrightarrow>
           processed deg nb until vis v \<or>
           (\<exists>t. (v, t) \<in> set (tagged d q) \<and> dist_is deg nb from v (nat (t - 1)))"
    using inv unfolding bfs_inv_def prod.case by (elim conjE)
  then show ?thesis using v by blast
qed

lemma bfs_inv_level:
  "bfs_inv deg nb from until (q, d, vis) \<Longrightarrow> tagged d q \<noteq> [] \<Longrightarrow>
   int k < snd (hd (tagged d q)) \<Longrightarrow> walks deg nb from k \<subseteq> vset vis \<union> {from}"
proof -
  assume inv: "bfs_inv deg nb from until (q, d, vis)" and ne: "tagged d q \<noteq> []"
    and k: "int k < snd (hd (tagged d q))"
  have "tagged d q \<noteq> [] \<longrightarrow>
           (\<forall>k. int k < snd (hd (tagged d q)) \<longrightarrow>
              walks deg nb from k \<subseteq> vset vis \<union> {from})"
    using inv unfolding bfs_inv_def prod.case by (elim conjE)
  then show ?thesis using ne k by blast
qed

lemma bfs_inv_marker:
  "m < 0 \<Longrightarrow> bfs_inv deg nb from until (m # rest, d, vis) =
             bfs_inv deg nb from until (rest, - m, vis)"
  by (simp add: bfs_inv_def)

lemma dist_is_source: "dist_is deg nb from v 0 \<longleftrightarrow> v = from"
  by (simp add: dist_is_def)

lemma dist_is_source_only: "dist_is deg nb from from k \<Longrightarrow> k = 0"
  by (cases k) (auto simp: dist_is_def)

lemma bfs_inv_init:
  "0 \<le> from \<Longrightarrow> nat from < n \<Longrightarrow>
   bfs_inv deg nb from until ([from], 1, replicate n False)"
  by (rule bfs_invI) (auto simp: dist_is_source vset_def)

lemma adjacent_set:
  "deg u = Inr d \<Longrightarrow>
   set (adjacent deg nb u) = {w. \<exists>i\<in>set [0..<nat d]. nb u (int i) = Inr w}"
  by (auto simp: adjacent_def split: sum.splits)

lemma walks_step:
  "u \<in> walks deg nb from k \<Longrightarrow> w \<in> set (adjacent deg nb u) \<Longrightarrow>
   w \<in> walks deg nb from (Suc k)"
  by auto

lemma processed_mono:
  "processed deg nb until vis v \<Longrightarrow> vset vis \<subseteq> vset vis' \<Longrightarrow>
   processed deg nb until vis' v"
  by (auto simp: processed_def)

lemma wf_graph_city:
  assumes "wf_graph deg nb n" "0 \<le> x" "nat x < n"
  shows "\<exists>d. deg x = Inr d \<and>
           (\<forall>i\<in>set [0..<nat d]. \<exists>w. nb x (int i) = Inr w \<and> 0 \<le> w \<and> nat w < n)"
proof -
  have "nat x \<in> set [0..<n]" using assms by simp
  then have *: "case deg (int (nat x)) of
          Inl f \<Rightarrow> False
        | Inr d \<Rightarrow>
            (\<forall>i\<in>set [0..<nat d].
               case nb (int (nat x)) (int i) of
                 Inl f \<Rightarrow> False
               | Inr w \<Rightarrow> 0 \<le> w \<and> w < int n)"
    using assms(1) unfolding wf_graph_def by blast
  have x: "int (nat x) = x" using assms(2) by simp
  from * obtain d where d: "deg x = Inr d"
    and all: "\<forall>i\<in>set [0..<nat d].
               case nb x (int i) of Inl f \<Rightarrow> False | Inr w \<Rightarrow> 0 \<le> w \<and> w < int n"
    unfolding x by (cases "deg x") auto
  have "\<exists>w. nb x (int i) = Inr w \<and> 0 \<le> w \<and> nat w < n" if "i \<in> set [0..<nat d]" for i
  proof -
    from bspec[OF all that] show ?thesis
      by (cases "nb x (int i)") auto
  qed
  with d show ?thesis by blast
qed

section \<open>One iteration on a city keeps the invariant\<close>

lemma filter_cities_fresh: "filter (\<lambda>x. 0 \<le> x) (fresh nb is vis) = fresh nb is vis"
  by (rule filter_True) (auto dest: fresh_nonneg)

lemma filter_markers_fresh: "filter (\<lambda>x. x < 0) (fresh nb is vis) = []"
  by (auto simp: filter_empty_conv dest: fresh_nonneg)

lemma sorted_tags_ge:
  "sorted (d # map snd P) \<Longrightarrow> (y, t) \<in> set P \<Longrightarrow> d \<le> t"
  by (auto simp: image_iff) 

lemma sorted_map_const: "sorted (map (\<lambda>x. c) xs)"
  by (induction xs) auto

lemma bfs_inv_city:
  assumes wf: "wf_graph deg nb (length vis)"
    and inv: "bfs_inv deg nb from until (x # rest, d, vis)"
    and x0: "0 \<le> x" and xu: "x \<noteq> until"
  shows "\<exists>q' vis'. list_body deg nb until (x # rest, d, vis) = Inr (Inr (q', d, vis')) \<and>
           bfs_inv deg nb from until (q', d, vis') \<and> length vis' = length vis \<and>
           loop_measure (q', d, vis') < loop_measure (x # rest, d, vis)"
proof -
  define P0 where "P0 = tagged d rest"
  have P: "tagged d (x # rest) = (x, d) # P0" using x0 by (simp add: P0_def)
  have hdP: "snd (hd (tagged d (x # rest))) = d" unfolding P by simp
  have xin: "(x, d) \<in> set (tagged d (x # rest))" unfolding P by simp
  have xr: "nat x < length vis" and d1: "1 \<le> d"
    using bfs_inv_rng[OF inv xin] by simp_all
  have sortedP: "sorted (d # map snd P0)" using bfs_inv_sorted[OF inv] unfolding P by simp
  have P0sub: "(y, t) \<in> set (tagged d (x # rest))" if "(y, t) \<in> set P0" for y t
    using that unfolding P by simp
  have ge0: "d \<le> t" if "(y, t) \<in> set P0" for y t
    using sorted_tags_ge[OF sortedP that] .
  have le0: "t \<le> d + 1" if "(y, t) \<in> set P0" for y t
    using bfs_inv_bound[OF inv P0sub[OF that]] unfolding hdP .
  have level: "walks deg nb from k \<subseteq> vset vis \<union> {from}" if "int k < d" for k
    using bfs_inv_level[OF inv, of k] that unfolding hdP unfolding P by simp

  from wf_graph_city[OF wf x0 xr] obtain dg where dg: "deg x = Inr dg"
    and nbs: "\<forall>i\<in>set [0..<nat dg]. \<exists>w. nb x (int i) = Inr w \<and> 0 \<le> w \<and> nat w < length vis"
    by blast
  define F where "F = fresh (nb x) [0..<nat dg] vis"
  define q0 where "q0 = (if 0 < dg then rest @ [- d - 1] else rest)"
  from list_visit_wf[OF nbs, of q0] obtain vis' where
    lv: "list_visit (nb x) [0..<nat dg] (q0, vis) = Inr (q0 @ F, vis')"
    and len: "length vis' = length vis"
    and vs: "vset vis' = vset vis \<union> set F"
    and sF: "set F = {w. \<exists>i\<in>set [0..<nat dg]. nb x (int i) = Inr w} - vset vis"
    and cnt: "length (filter Not vis') + length F = length (filter Not vis)"
    unfolding F_def by blast
  have adjx: "set (adjacent deg nb x) = {w. \<exists>i\<in>set [0..<nat dg]. nb x (int i) = Inr w}"
    using dg by (rule adjacent_set[of deg x dg nb])
  have sF': "set F = set (adjacent deg nb x) - vset vis" using sF adjx by simp
  have mono: "vset vis \<subseteq> vset vis'" using vs by blast
  have Frng: "0 \<le> w \<and> nat w < length vis" if "w \<in> set F" for w
  proof -
    from that obtain i where "i \<in> set [0..<nat dg]" "nb x (int i) = Inr w"
      unfolding sF by blast
    then show ?thesis using bspec[OF nbs, of i] by auto
  qed
  have F0: "\<forall>c\<in>set F. 0 \<le> c" using Frng by blast
  have Fnil: "F = []" if "\<not> 0 < dg" using that by (simp add: F_def)

  have body: "list_body deg nb until (x # rest, d, vis) = Inr (Inr (q0 @ F, d, vis'))"
    using x0 xu dg lv by (simp add: list_body_def q0_def)
  have P': "tagged d (q0 @ F) = P0 @ map (\<lambda>c. (c, d + 1)) F"
  proof (cases "0 < dg")
    case True
    have "tagged d (rest @ (- d - 1) # F) = tagged d rest @ map (\<lambda>c. (c, - (- d - 1))) F"
      using d1 F0 by (intro tagged_append_marker) simp_all
    then show ?thesis using True by (simp add: q0_def P0_def)
  next
    case False
    then show ?thesis using Fnil by (simp add: q0_def P0_def)
  qed
  have px: "processed deg nb until vis' x"
    using xu sF' vs by (auto simp: processed_def)

  have head_valid: "dist_is deg nb from x (nat (d - 1))" if "F \<noteq> []"
  proof (rule disjE[OF bfs_inv_valid[OF inv xin]])
    assume "x = from \<and> from \<noteq> until \<and> processed deg nb until vis from"
    then have "set (adjacent deg nb x) \<subseteq> vset vis" by (simp add: processed_def)
    then have "set F = {}" unfolding sF' by (simp add: Diff_eq_empty_iff)
    then show ?thesis using that by simp
  qed
  have Fdist: "dist_is deg nb from w (nat d)" if w: "w \<in> set F" and wf: "w \<noteq> from" for w
  proof -
    have "F \<noteq> []" using w by (cases F) simp_all
    then have hv: "dist_is deg nb from x (nat (d - 1))" by (rule head_valid)
    have "w \<in> set (adjacent deg nb x)" and nv: "w \<notin> vset vis" using w sF' by auto
    then have "w \<in> walks deg nb from (Suc (nat (d - 1)))"
      using hv by (auto simp: dist_is_def)
    moreover have "Suc (nat (d - 1)) = nat d" using d1 by simp
    ultimately have in_: "w \<in> walks deg nb from (nat d)" by simp
    have "w \<notin> walks deg nb from j" if "j < nat d" for j
    proof -
      have "int j < d" using that by simp
      from level[OF this] show ?thesis using nv wf by blast
    qed
    with in_ show ?thesis by (simp add: dist_is_def)
  qed
  have Ffrom: "from \<noteq> until \<and> processed deg nb until vis' from" if w: "from \<in> set F"
  proof -
    have "F \<noteq> []" using w by (cases F) simp_all
    then have hv: "dist_is deg nb from x (nat (d - 1))" by (rule head_valid)
    have c: "processed deg nb until vis from \<or>
      (\<exists>t. (from, t) \<in> set (tagged d (x # rest)) \<and> dist_is deg nb from from (nat (t - 1)))"
      by (rule bfs_inv_cover[OF inv]) simp
    show ?thesis
    proof (rule disjE[OF c])
      assume p: "processed deg nb until vis from"
      then show ?thesis using processed_mono[OF p mono] by (simp add: processed_def)
    next
      assume "\<exists>t. (from, t) \<in> set (tagged d (x # rest)) \<and> dist_is deg nb from from (nat (t - 1))"
      then obtain t where t: "(from, t) \<in> set (tagged d (x # rest))"
        and dt: "dist_is deg nb from from (nat (t - 1))" by blast
      have "nat (t - 1) = 0" using dist_is_source_only[OF dt] .
      then have t1: "t \<le> 1" by simp
      have "(from, t) = (x, d) \<or> (from, t) \<in> set P0" using t unfolding P by simp
      then have "d \<le> t" using ge0 by auto
      then have "d = 1" using t1 d1 by simp
      then have "x = from" using hv by (simp add: dist_is_source)
      then show ?thesis using px xu by simp
    qed
  qed

  have tags': "d \<le> t \<and> t \<le> d + 1" if "(y, t) \<in> set (P0 @ map (\<lambda>c. (c, d + 1)) F)" for y t
    using that ge0 le0 by auto
  have srt': "sorted (map snd (P0 @ map (\<lambda>c. (c, d + 1)) F))"
  proof -
    have "sorted (map snd P0)" using sortedP by simp
    moreover have "\<forall>t\<in>set (map snd P0). \<forall>t'\<in>set (map (\<lambda>x. d + 1) F). t \<le> t'"
      using le0 by auto
    ultimately show ?thesis
      by (simp add: sorted_append comp_def sorted_map_const)
  qed
  have inv': "bfs_inv deg nb from until (q0 @ F, d, vis')"
  proof (rule bfs_invI; unfold P')
    fix y t assume yt: "(y, t) \<in> set (P0 @ map (\<lambda>c. (c, d + 1)) F)"
    show "0 \<le> y \<and> nat y < length vis' \<and> 1 \<le> t"
    proof (cases "(y, t) \<in> set P0")
      case True
      then show ?thesis using bfs_inv_rng[OF inv P0sub[OF True]] len by simp
    next
      case False
      then have "y \<in> set F" "t = d + 1" using yt by auto
      then show ?thesis using Frng d1 len by simp
    qed
  next
    show "sorted (map snd (P0 @ map (\<lambda>c. (c, d + 1)) F))"
      by (rule srt')
  next
    fix y t assume yt: "(y, t) \<in> set (P0 @ map (\<lambda>c. (c, d + 1)) F)"
    then have ne: "P0 @ map (\<lambda>c. (c, d + 1)) F \<noteq> []" by auto
    obtain y0 t0 where h: "hd (P0 @ map (\<lambda>c. (c, d + 1)) F) = (y0, t0)"
      by (cases "hd (P0 @ map (\<lambda>c. (c, d + 1)) F)")
    have "(y0, t0) \<in> set (P0 @ map (\<lambda>c. (c, d + 1)) F)"
      using hd_in_set[OF ne] h by simp
    then have "d \<le> t0" using tags' by blast
    then show "t \<le> snd (hd (P0 @ map (\<lambda>c. (c, d + 1)) F)) + 1"
      using tags'[OF yt] h by simp
  next
    fix y t assume yt: "(y, t) \<in> set (P0 @ map (\<lambda>c. (c, d + 1)) F)"
    show "dist_is deg nb from y (nat (t - 1)) \<or>
          (y = from \<and> from \<noteq> until \<and> processed deg nb until vis' from)"
    proof (cases "(y, t) \<in> set P0")
      case True
      from bfs_inv_valid[OF inv P0sub[OF True]] show ?thesis
        using processed_mono[OF _ mono] by blast
    next
      case False
      then have yF: "y \<in> set F" and t: "t = d + 1" using yt by auto
      show ?thesis
      proof (cases "y = from")
        case True
        then show ?thesis using Ffrom yF by simp
      next
        case False
        then show ?thesis using Fdist[OF yF False] t by simp
      qed
    qed
  next
    fix v assume v: "v \<in> vset vis' \<or> v = from"
    show "processed deg nb until vis' v \<or>
          (\<exists>t. (v, t) \<in> set (P0 @ map (\<lambda>c. (c, d + 1)) F) \<and>
               dist_is deg nb from v (nat (t - 1)))"
    proof (cases "v = x")
      case True
      then show ?thesis using px by simp
    next
      case vx: False
      show ?thesis
      proof (cases "v \<in> set F")
        case True
        show ?thesis
        proof (cases "v = from")
          case True
          then show ?thesis using Ffrom \<open>v \<in> set F\<close> by simp
        next
          case False
          have "(v, d + 1) \<in> set (P0 @ map (\<lambda>c. (c, d + 1)) F)" using True by auto
          moreover have "dist_is deg nb from v (nat (d + 1 - 1))"
            using Fdist[OF True False] by simp
          ultimately show ?thesis by blast
        qed
      next
        case False
        then have "v \<in> vset vis \<or> v = from" using v vs by blast
        from bfs_inv_cover[OF inv this] show ?thesis
        proof (elim disjE)
          assume "processed deg nb until vis v"
          then show ?thesis using processed_mono[OF _ mono] by blast
        next
          assume "\<exists>t. (v, t) \<in> set (tagged d (x # rest)) \<and> dist_is deg nb from v (nat (t - 1))"
          then obtain t where "(v, t) \<in> set P0" "dist_is deg nb from v (nat (t - 1))"
            using vx unfolding P by auto
          then show ?thesis by auto
        qed
      qed
    qed
  next
    fix k assume ne: "P0 @ map (\<lambda>c. (c, d + 1)) F \<noteq> []"
      and k: "int k < snd (hd (P0 @ map (\<lambda>c. (c, d + 1)) F))"
    obtain y0 t0 where h: "hd (P0 @ map (\<lambda>c. (c, d + 1)) F) = (y0, t0)"
      by (cases "hd (P0 @ map (\<lambda>c. (c, d + 1)) F)")
    have h_in: "(y0, t0) \<in> set (P0 @ map (\<lambda>c. (c, d + 1)) F)"
      using hd_in_set[OF ne] h by simp
    have t0: "d \<le> t0" "t0 \<le> d + 1" using tags'[OF h_in] by simp_all
    show "walks deg nb from k \<subseteq> vset vis' \<union> {from}"
    proof (cases "int k < d")
      case True
      from level[OF this] show ?thesis using mono by blast
    next
      case False
      then have kd: "k = nat d" and t0d: "t0 = d + 1" using k h t0 by simp_all
      have all_ge: "d + 1 \<le> t" if "(y, t) \<in> set (P0 @ map (\<lambda>c. (c, d + 1)) F)" for y t
      proof -
        have s: "sorted (map snd (P0 @ map (\<lambda>c. (c, d + 1)) F))"
          by (rule srt')
        obtain r where r: "P0 @ map (\<lambda>c. (c, d + 1)) F = (y0, t0) # r"
          using ne h by (cases "P0 @ map (\<lambda>c. (c, d + 1)) F") auto
        have "t0 \<le> t" using s that unfolding r by auto
        then show ?thesis using t0d by simp
      qed
      have cover': "processed deg nb until vis' v \<or>
          (\<exists>t. (v, t) \<in> set (P0 @ map (\<lambda>c. (c, d + 1)) F) \<and>
               dist_is deg nb from v (nat (t - 1)))" if "v \<in> vset vis' \<or> v = from" for v
      proof (cases "v = x")
        case True
        then show ?thesis using px by simp
      next
        case vx: False
        show ?thesis
        proof (cases "v \<in> set F")
          case True
          show ?thesis
          proof (cases "v = from")
            case True
            then show ?thesis using Ffrom \<open>v \<in> set F\<close> by simp
          next
            case False
            have "(v, d + 1) \<in> set (P0 @ map (\<lambda>c. (c, d + 1)) F)" using True by auto
            moreover have "dist_is deg nb from v (nat (d + 1 - 1))"
              using Fdist[OF True False] by simp
            ultimately show ?thesis by blast
          qed
        next
          case False
          then have "v \<in> vset vis \<or> v = from" using that vs by blast
          from bfs_inv_cover[OF inv this] show ?thesis
          proof (elim disjE)
            assume "processed deg nb until vis v"
            then show ?thesis using processed_mono[OF _ mono] by blast
          next
            assume "\<exists>t. (v, t) \<in> set (tagged d (x # rest)) \<and>
                        dist_is deg nb from v (nat (t - 1))"
            then obtain t where "(v, t) \<in> set P0" "dist_is deg nb from v (nat (t - 1))"
              using vx unfolding P by auto
            then show ?thesis by auto
          qed
        qed
      qed
      show ?thesis
      proof
        fix w assume w: "w \<in> walks deg nb from k"
        have "k = Suc (nat (d - 1))" using kd d1 by simp
        then obtain u where u: "u \<in> walks deg nb from (nat (d - 1))"
          and wu: "w \<in> set (adjacent deg nb u)" using w by auto
        have "int (nat (d - 1)) < d" using d1 by simp
        from level[OF this] have "u \<in> vset vis' \<or> u = from" using u mono by blast
        from cover'[OF this] show "w \<in> vset vis' \<union> {from}"
        proof (elim disjE)
          assume "processed deg nb until vis' u"
          then show ?thesis using wu by (auto simp: processed_def)
        next
          assume "\<exists>t. (u, t) \<in> set (P0 @ map (\<lambda>c. (c, d + 1)) F) \<and>
                      dist_is deg nb from u (nat (t - 1))"
          then obtain t where t: "(u, t) \<in> set (P0 @ map (\<lambda>c. (c, d + 1)) F)"
            and dt: "dist_is deg nb from u (nat (t - 1))" by blast
          have "nat (d - 1) < nat (t - 1)" using all_ge[OF t] d1 by simp
          then have "u \<notin> walks deg nb from (nat (d - 1))" using dt by (simp add: dist_is_def)
          then show ?thesis using u by simp
        qed
      qed
    qed
  qed

  have m1: "length (filter (\<lambda>x. 0 \<le> x) (q0 @ F)) = length (filter (\<lambda>x. 0 \<le> x) rest) + length F"
    using d1 by (simp add: q0_def F_def filter_cities_fresh)
  have m2: "length (filter (\<lambda>x. x < 0) (q0 @ F)) \<le> length (filter (\<lambda>x. x < 0) rest) + 1"
    by (simp add: q0_def F_def filter_markers_fresh)
  have meas: "loop_measure (q0 @ F, d, vis') < loop_measure (x # rest, d, vis)"
    using m1 m2 cnt x0 by (simp add: loop_measure_def)
  show ?thesis using body inv' len meas by blast
qed

section \<open>The search returns the hop distance\<close>

lemma closed_walks:
  assumes "\<And>v. v \<in> vset vis \<or> v = from \<Longrightarrow> processed deg nb until vis v"
  shows "walks deg nb from k \<subseteq> vset vis \<union> {from}"
proof (induction k)
  case 0
  then show ?case by simp
next
  case (Suc k)
  show ?case
  proof
    fix w assume "w \<in> walks deg nb from (Suc k)"
    then obtain u where u: "u \<in> walks deg nb from k" and w: "w \<in> set (adjacent deg nb u)"
      by auto
    have "u \<in> vset vis \<or> u = from" using Suc u by blast
    from assms[OF this] show "w \<in> vset vis \<union> {from}" using w by (auto simp: processed_def)
  qed
qed

lemma no_cities_unreachable:
  assumes inv: "bfs_inv deg nb from until (q, d, vis)" and nil: "tagged d q = []"
  shows "hop_distance deg nb from until = IMPOSSIBLE"
proof -
  have pr: "processed deg nb until vis v" if "v \<in> vset vis \<or> v = from" for v
    using bfs_inv_cover[OF inv that] nil by simp
  have "until \<notin> walks deg nb from k" for k
  proof
    assume "until \<in> walks deg nb from k"
    then have "until \<in> vset vis \<or> until = from" using closed_walks[of vis "from" deg nb until k] pr
      by blast
    from pr[OF this] show False by (simp add: processed_def)
  qed
  then show ?thesis by (simp add: hop_distance_def)
qed

lemma hop_distance_dist_is:
  assumes "dist_is deg nb from until k"
  shows "hop_distance deg nb from until = int k"
proof -
  have in_: "until \<in> walks deg nb from k"
    and least: "\<And>j. until \<in> walks deg nb from j \<Longrightarrow> k \<le> j"
    using assms by (auto simp: dist_is_def intro: leI)
  have "(LEAST j. until \<in> walks deg nb from j) = k"
    using in_ least by (rule Least_equality)
  then show ?thesis using in_ by (auto simp: hop_distance_def)
qed

lemma loop_measure_marker:
  "m < 0 \<Longrightarrow> loop_measure (rest, d', vis) < loop_measure (m # rest, d, vis)"
  by (simp add: loop_measure_def)

lemma list_loop_correct:
  assumes wf: "wf_graph deg nb n"
  shows "bfs_inv deg nb from until st \<Longrightarrow> length (snd (snd st)) = n \<Longrightarrow>
         list_loop deg nb until st = Some (Inr (hop_distance deg nb from until))"
proof (induction st rule: measure_induct_rule[where f = loop_measure])
  case (less st)
  obtain q d vis where st: "st = (q, d, vis)" by (cases st)
  have inv: "bfs_inv deg nb from until (q, d, vis)" and len: "length vis = n"
    using less.prems st by simp_all
  show ?case
  proof (cases q)
    case Nil
    then have "hop_distance deg nb from until = IMPOSSIBLE"
      using no_cities_unreachable[OF inv] by simp
    then show ?thesis using st Nil by (simp add: list_loop_empty)
  next
    case (Cons x rest)
    show ?thesis
    proof (cases "x < 0")
      case True
      have inv': "bfs_inv deg nb from until (rest, - x, vis)"
        using inv Cons True by (simp add: bfs_inv_marker)
      have "list_loop deg nb until (rest, - x, vis) =
            Some (Inr (hop_distance deg nb from until))"
        using less.IH[of "(rest, - x, vis)"] inv' len st Cons loop_measure_marker[OF True]
        by simp
      moreover have "list_loop deg nb until (x # rest, d, vis) =
            list_loop deg nb until (rest, - x, vis)"
        using True by (subst list_loop.simps) (simp add: list_body_def)
      ultimately show ?thesis using st Cons by simp
    next
      case False
      then have x0: "0 \<le> x" by simp
      have xin: "(x, d) \<in> set (tagged d (x # rest))" using x0 by simp
      have d1: "1 \<le> d" using bfs_inv_rng[OF inv[unfolded Cons] xin] by simp
      show ?thesis
      proof (cases "x = until")
        case True
        have "dist_is deg nb from until (nat (d - 1))"
          using bfs_inv_valid[OF inv[unfolded Cons] xin] True by auto
        then have "hop_distance deg nb from until = d - 1"
          using hop_distance_dist_is d1 by fastforce
        then show ?thesis using st Cons True x0 by (simp add: list_loop_same)
      next
        case xu: False
        from bfs_inv_city[OF wf[folded len] inv[unfolded Cons] x0 xu] obtain q' vis' where
          body: "list_body deg nb until (x # rest, d, vis) = Inr (Inr (q', d, vis'))"
          and inv': "bfs_inv deg nb from until (q', d, vis')"
          and len': "length vis' = length vis"
          and meas: "loop_measure (q', d, vis') < loop_measure (x # rest, d, vis)"
          by blast
        have "list_loop deg nb until (q', d, vis') =
              Some (Inr (hop_distance deg nb from until))"
          using less.IH[of "(q', d, vis')"] inv' len len' meas st Cons by simp
        moreover have "list_loop deg nb until (x # rest, d, vis) =
              list_loop deg nb until (q', d, vis')"
          using body by (subst list_loop.simps) simp
        ultimately show ?thesis using st Cons by simp
      qed
    qed
  qed
qed

lemma solve_generic_correct:
  assumes "wf_graph deg nb n" "0 \<le> from" "nat from < n"
  shows "solve_generic deg nb n from until = Some (Inr (hop_distance deg nb from until))"
proof -
  have "bfs_inv deg nb from until ([from], 1, replicate n False)"
    using assms(2,3) by (rule bfs_inv_init)
  from list_loop_correct[OF assms(1) this] show ?thesis
    by (simp add: solve_generic_list)
qed

section \<open>Walks in an undirected graph\<close>

lemma wf_graph_adjacent:
  assumes "wf_graph deg nb n" "0 \<le> u" "nat u < n" "w \<in> set (adjacent deg nb u)"
  shows "0 \<le> w \<and> nat w < n"
proof -
  from wf_graph_city[OF assms(1-3)] obtain d where d: "deg u = Inr d"
    and all: "\<forall>i\<in>set [0..<nat d]. \<exists>w. nb u (int i) = Inr w \<and> 0 \<le> w \<and> nat w < n"
    by blast
  have "set (adjacent deg nb u) = {w. \<exists>i\<in>set [0..<nat d]. nb u (int i) = Inr w}"
    using d by (rule adjacent_set[of deg u d nb])
  then obtain i where i: "i \<in> set [0..<nat d]" "nb u (int i) = Inr w"
    using assms(4) by blast
  then show ?thesis using bspec[OF all i(1)] by auto
qed

lemma walks_in_range:
  assumes "wf_graph deg nb n" "0 \<le> a" "nat a < n"
  shows "v \<in> walks deg nb a k \<Longrightarrow> 0 \<le> v \<and> nat v < n"
proof (induction k arbitrary: v)
  case 0
  then show ?case using assms by simp
next
  case (Suc k)
  then obtain u where u: "u \<in> walks deg nb a k" and v: "v \<in> set (adjacent deg nb u)"
    by auto
  from Suc.IH[OF u] have "0 \<le> u" "nat u < n" by simp_all
  then show ?case using wf_graph_adjacent[OF assms(1) _ _ v] by simp
qed

lemma walks_front:
  "b \<in> walks deg nb a (Suc k) \<longleftrightarrow> (\<exists>u\<in>set (adjacent deg nb a). b \<in> walks deg nb u k)"
proof (induction k arbitrary: b)
  case 0
  then show ?case by simp
next
  case (Suc k)
  have "b \<in> walks deg nb a (Suc (Suc k)) \<longleftrightarrow>
        (\<exists>v\<in>walks deg nb a (Suc k). b \<in> set (adjacent deg nb v))"
    by auto
  also have "\<dots> \<longleftrightarrow> (\<exists>v. (\<exists>u\<in>set (adjacent deg nb a). v \<in> walks deg nb u k) \<and>
                          b \<in> set (adjacent deg nb v))"
    using Suc.IH by blast
  also have "\<dots> \<longleftrightarrow> (\<exists>u\<in>set (adjacent deg nb a). b \<in> walks deg nb u (Suc k))"
    by auto
  finally show ?case .
qed

lemma undirected_edge:
  assumes "undirected deg nb n" "0 \<le> u" "nat u < n" "w \<in> set (adjacent deg nb u)"
  shows "u \<in> set (adjacent deg nb w)"
proof -
  have "nat u \<in> set [0..<n]" using assms(3) by simp
  then have "\<forall>w\<in>set (adjacent deg nb (int (nat u))). int (nat u) \<in> set (adjacent deg nb w)"
    using assms(1) unfolding undirected_def by blast
  then show ?thesis using assms(2,4) by simp
qed

lemma walks_reverse:
  assumes "wf_graph deg nb n" "undirected deg nb n" "0 \<le> a" "nat a < n"
  shows "b \<in> walks deg nb a k \<Longrightarrow> a \<in> walks deg nb b k"
proof (induction k arbitrary: b)
  case 0
  then show ?case by simp
next
  case (Suc k)
  then obtain u where u: "u \<in> walks deg nb a k" and b: "b \<in> set (adjacent deg nb u)"
    by auto
  have ur: "0 \<le> u" "nat u < n" using walks_in_range[OF assms(1,3,4) u] by simp_all
  have "u \<in> set (adjacent deg nb b)" using undirected_edge[OF assms(2) ur b] .
  moreover have "a \<in> walks deg nb u k" using Suc.IH[OF u] .
  ultimately show ?case unfolding walks_front by blast
qed

lemma hop_distance_symmetric:
  assumes "wf_graph deg nb n" "undirected deg nb n"
    and "0 \<le> a" "nat a < n" "0 \<le> b" "nat b < n"
  shows "hop_distance deg nb a b = hop_distance deg nb b a"
proof -
  have "b \<in> walks deg nb a k \<longleftrightarrow> a \<in> walks deg nb b k" for k
    using walks_reverse[OF assms(1,2,3,4), of b k] walks_reverse[OF assms(1,2,5,6), of a k]
    by blast
  then show ?thesis by (simp add: hop_distance_def)
qed

lemma solve_generic_symmetric:
  assumes "wf_graph deg nb n" "undirected deg nb n"
    and "0 \<le> a" "nat a < n" "0 \<le> b" "nat b < n"
  shows "solve_generic deg nb n a b = solve_generic deg nb n b a"
  using solve_generic_correct[OF assms(1,3,4), of b] solve_generic_correct[OF assms(1,5,6), of a]
    hop_distance_symmetric[OF assms]
  by simp

text \<open>
  C6. For every well-formed undirected graph (of either representation) and every pair of
  its cities \<open>a\<close> and \<open>b\<close>, \<^verbatim>\<open>solve(g, a, b)\<close> and \<^verbatim>\<open>solve(g, b, a)\<close> return the same value:
  the same distance, or \<^verbatim>\<open>IMPOSSIBLE\<close> both.
\<close>

theorem solve_symmetric:
  assumes "wf_graph (degree_flat g) (neighbour_flat g) (f_size g)"
    and "undirected (degree_flat g) (neighbour_flat g) (f_size g)"
    and "0 \<le> a" "nat a < f_size g" "0 \<le> b" "nat b < f_size g"
    and "wf_graph (degree_dyn g') (neighbour_dyn g') (d_size g')"
    and "undirected (degree_dyn g') (neighbour_dyn g') (d_size g')"
    and "0 \<le> a'" "nat a' < d_size g'" "0 \<le> b'" "nat b' < d_size g'"
  shows "solve g a b = solve g b a \<and> solve_dyn g' a' b' = solve_dyn g' b' a'"
  using solve_generic_symmetric[OF assms(1-6)] solve_generic_symmetric[OF assms(7-12)]
  by (simp add: solve_def solve_dyn_def)

lemma upt_5: "[0..<5] = [0, 1, 2, 3, 4]"
  by (simp add: upt_rec)

lemma upt_2: "[0..<2] = [0, 1]"
  by (simp add: upt_rec)

lemma star_wf: "wf_graph (degree_flat star_graph) (neighbour_flat star_graph) 5"
  by (simp add: wf_graph_def star_graph_def flat_build_defs upt_rec flat_step_defs)

lemma star_adjacent:
  "adjacent (degree_flat star_graph) (neighbour_flat star_graph) 0 = []"
  "adjacent (degree_flat star_graph) (neighbour_flat star_graph) 1 = [2, 3]"
  "adjacent (degree_flat star_graph) (neighbour_flat star_graph) 2 = [1]"
  "adjacent (degree_flat star_graph) (neighbour_flat star_graph) 3 = [1]"
  "adjacent (degree_flat star_graph) (neighbour_flat star_graph) 4 = []"
  by (simp_all add: adjacent_def star_graph_def flat_build_defs upt_rec flat_step_defs)

lemma star_undirected: "undirected (degree_flat star_graph) (neighbour_flat star_graph) 5"
  by (simp add: undirected_def upt_5 star_adjacent)

lemma pair_wf: "wf_graph (degree_dyn pair_graph) (neighbour_dyn pair_graph) 2"
  by (simp add: wf_graph_def pair_graph_def upt_rec dyn_step_defs)

lemma pair_adjacent:
  "adjacent (degree_dyn pair_graph) (neighbour_dyn pair_graph) 0 = [1]"
  "adjacent (degree_dyn pair_graph) (neighbour_dyn pair_graph) 1 = [0]"
  by (simp_all add: adjacent_def pair_graph_def upt_rec dyn_step_defs)

lemma pair_undirected: "undirected (degree_dyn pair_graph) (neighbour_dyn pair_graph) 2"
  by (simp add: undirected_def upt_2 pair_adjacent)

text \<open>The example graph between city 1 and city 3, and the graph of one edge.\<close>

theorem solve_symmetric_witness:
  "wf_graph (degree_flat star_graph) (neighbour_flat star_graph) (f_size star_graph) \<and>
   undirected (degree_flat star_graph) (neighbour_flat star_graph) (f_size star_graph) \<and>
   (0::int) \<le> 1 \<and> nat 1 < f_size star_graph \<and> (0::int) \<le> 3 \<and> nat 3 < f_size star_graph \<and>
   wf_graph (degree_dyn pair_graph) (neighbour_dyn pair_graph) (d_size pair_graph) \<and>
   undirected (degree_dyn pair_graph) (neighbour_dyn pair_graph) (d_size pair_graph) \<and>
   (0::int) \<le> 0 \<and> nat 0 < d_size pair_graph \<and> (0::int) \<le> 1 \<and> nat 1 < d_size pair_graph \<and>
   solve star_graph 1 3 = solve star_graph 3 1 \<and>
   solve_dyn pair_graph 0 1 = solve_dyn pair_graph 1 0"
proof -
  have ps: "d_size pair_graph = 2" by (simp add: pair_graph_def)
  have 1: "wf_graph (degree_flat star_graph) (neighbour_flat star_graph) (f_size star_graph)"
    and 2: "undirected (degree_flat star_graph) (neighbour_flat star_graph) (f_size star_graph)"
    using star_wf star_undirected by (simp_all add: star_size)
  have 3: "wf_graph (degree_dyn pair_graph) (neighbour_dyn pair_graph) (d_size pair_graph)"
    and 4: "undirected (degree_dyn pair_graph) (neighbour_dyn pair_graph) (d_size pair_graph)"
    using pair_wf pair_undirected by (simp_all add: ps)
  have r: "(0::int) \<le> 1" "nat 1 < f_size star_graph" "(0::int) \<le> 3" "nat 3 < f_size star_graph"
    "(0::int) \<le> 0" "nat 0 < d_size pair_graph" "(0::int) \<le> 1" "nat 1 < d_size pair_graph"
    by (simp_all add: star_size ps)
  show ?thesis
    using solve_symmetric[OF 1 2 r(1-4) 3 4 r(5-8)] 1 2 3 4 r by simp
qed

section \<open>The graph of the adjacency-list program\<close>

lemma partners_append [simp]: "partners (xs @ ys) v = partners xs v @ partners ys v"
  by (induction xs) auto

lemma list_get_ok: "0 \<le> i \<Longrightarrow> nat i < length xs \<Longrightarrow> list_get xs i = Inr (xs ! nat i)"
  by (simp add: list_get_def)

lemma list_set_ok: "0 \<le> i \<Longrightarrow> nat i < length xs \<Longrightarrow> list_set xs i v = Inr (xs[nat i := v])"
  by (simp add: list_set_def)

lemma bind_fault_Inr [simp]: "bind_fault (Inr x) f = f x"
  by (simp add: bind_fault_def)

lemma bind_fault_Inl [simp]: "bind_fault (Inl e) f = Inl e"
  by (simp add: bind_fault_def)

lemma dyn_inv_make: "dyn_inv N [] (make_graph N)"
  by (simp add: dyn_inv_def make_graph_def DEFAULT_CAPACITY_def calloc_def)

lemma dyn_inv_at:
  assumes "dyn_inv N done g" "0 \<le> c" "nat c < N"
  shows "d_degree g ! nat c = int (length (partners done c))"
    and "d_capacity g ! nat c = int (length (d_neighbours g ! nat c))"
    and "0 < length (d_neighbours g ! nat c)"
    and "length (partners done c) \<le> length (d_neighbours g ! nat c)"
    and "take (length (partners done c)) (d_neighbours g ! nat c) = partners done c"
proof -
  have "d_degree g ! nat c = int (length (partners done (int (nat c)))) \<and>
        d_capacity g ! nat c = int (length (d_neighbours g ! nat c)) \<and>
        0 < length (d_neighbours g ! nat c) \<and>
        length (partners done (int (nat c))) \<le> length (d_neighbours g ! nat c) \<and>
        take (length (partners done (int (nat c)))) (d_neighbours g ! nat c) =
          partners done (int (nat c))"
    using assms(1,3) unfolding dyn_inv_def by blast
  then show "d_degree g ! nat c = int (length (partners done c))"
    and "d_capacity g ! nat c = int (length (d_neighbours g ! nat c))"
    and "0 < length (d_neighbours g ! nat c)"
    and "length (partners done c) \<le> length (d_neighbours g ! nat c)"
    and "take (length (partners done c)) (d_neighbours g ! nat c) = partners done c"
    using assms(2) by simp_all
qed

lemma dyn_inv_lengths:
  assumes "dyn_inv N done g"
  shows "d_size g = N" "length (d_capacity g) = N" "length (d_degree g) = N"
    "length (d_neighbours g) = N"
  using assms by (simp_all add: dyn_inv_def)

lemma ensure_capacity_ok:
  assumes inv: "dyn_inv N done g" and c: "0 \<le> c" "nat c < N"
  shows "\<exists>g'. graph_ensure_capacity junk g c = Inr g' \<and> dyn_inv N done g' \<and>
           length (partners done c) < length (d_neighbours g' ! nat c) \<and>
           (\<forall>v<N. length (d_neighbours g ! v) \<le> length (d_neighbours g' ! v))"
proof -
  let ?row = "d_neighbours g ! nat c" and ?k = "length (partners done c)"
  have lens: "length (d_capacity g) = N" "length (d_degree g) = N" "length (d_neighbours g) = N"
    using inv by (simp_all add: dyn_inv_def)
  have at: "d_degree g ! nat c = int ?k" "d_capacity g ! nat c = int (length ?row)"
    "0 < length ?row" "?k \<le> length ?row" "take ?k ?row = partners done c"
    using dyn_inv_at[OF inv c] by simp_all
  show ?thesis
  proof (cases "length ?row = ?k")
    case False
    then have "graph_ensure_capacity junk g c = Inr g"
      using c lens at by (simp add: graph_ensure_capacity_def list_get_ok)
    then show ?thesis using inv at False by auto
  next
    case True
    let ?row' = "realloc junk ?row (nat (int (length ?row) * 2))"
    let ?g' = "g\<lparr>d_neighbours := (d_neighbours g)[nat c := ?row'],
                  d_capacity := (d_capacity g)[nat c := int (length ?row) * 2]\<rparr>"
    have row': "?row' = ?row @ replicate (length ?row) junk"
      by (simp add: realloc_def nat_mult_distrib)
    have e: "graph_ensure_capacity junk g c = Inr ?g'"
      using c lens at True by (simp add: graph_ensure_capacity_def list_get_ok list_set_ok)
    have inv': "dyn_inv N done ?g'"
      unfolding dyn_inv_def
    proof (intro conjI allI impI)
      fix v assume v: "v < N"
      have old: "d_degree g ! v = int (length (partners done (int v)))"
        "d_capacity g ! v = int (length (d_neighbours g ! v))"
        "0 < length (d_neighbours g ! v)"
        "length (partners done (int v)) \<le> length (d_neighbours g ! v)"
        "take (length (partners done (int v))) (d_neighbours g ! v) = partners done (int v)"
        using dyn_inv_at[OF inv, of "int v"] v by simp_all
      show "d_degree ?g' ! v = int (length (partners done (int v)))" using old by simp
      show "d_capacity ?g' ! v = int (length (d_neighbours ?g' ! v))"
        using old lens v row' by (cases "v = nat c") (simp_all add: nth_list_update)
      show "0 < length (d_neighbours ?g' ! v)"
        using old lens v row' by (cases "v = nat c") (simp_all add: nth_list_update)
      show "length (partners done (int v)) \<le> length (d_neighbours ?g' ! v)"
        using old lens v row' by (cases "v = nat c") (simp_all add: nth_list_update)
      show "take (length (partners done (int v))) (d_neighbours ?g' ! v) = partners done (int v)"
        using old lens v row' by (cases "v = nat c") (simp_all add: nth_list_update)
    qed (use inv lens in \<open>simp_all add: dyn_inv_def\<close>)
    have "length (partners done c) < length (d_neighbours ?g' ! nat c)"
      using lens c at True row' by simp
    moreover have "\<forall>v<N. length (d_neighbours g ! v) \<le> length (d_neighbours ?g' ! v)"
    proof (intro allI impI)
      fix v assume "v < N"
      then show "length (d_neighbours g ! v) \<le> length (d_neighbours ?g' ! v)"
        using lens row' by (cases "v = nat c") (simp_all add: nth_list_update)
    qed
    ultimately show ?thesis using e inv' by blast
  qed
qed

lemma partners_snoc:
  "partners (done @ [(a, b)]) v =
   partners done v @ (if a = v then [b] else []) @ (if b = v then [a] else [])"
  by simp

lemma take_update_last:
  "k < length xs \<Longrightarrow> take (Suc k) (xs[k := x]) = take k xs @ [x]"
  by (simp add: take_Suc_conv_app_nth)

lemma add_railway_ok:
  assumes inv: "dyn_inv N done g"
    and a: "0 \<le> a" "nat a < N" and b: "0 \<le> b" "nat b < N" and ab: "a \<noteq> b"
  shows "\<exists>g'. graph_add_railway junk g a b = Inr g' \<and> dyn_inv N (done @ [(a, b)]) g'"
proof -
  let ?ka = "length (partners done a)" and ?kb = "length (partners done b)"
  from ensure_capacity_ok[OF inv a, of junk] obtain g1 where
    e1: "graph_ensure_capacity junk g a = Inr g1" and inv1: "dyn_inv N done g1"
    and sa1: "?ka < length (d_neighbours g1 ! nat a)" by blast
  from ensure_capacity_ok[OF inv1 b, of junk] obtain g2 where
    e2: "graph_ensure_capacity junk g1 b = Inr g2" and inv2: "dyn_inv N done g2"
    and sb: "?kb < length (d_neighbours g2 ! nat b)"
    and mono: "\<forall>v<N. length (d_neighbours g1 ! v) \<le> length (d_neighbours g2 ! v)" by blast
  have sa: "?ka < length (d_neighbours g2 ! nat a)" using sa1 mono a by fastforce
  have lens: "length (d_capacity g2) = N" "length (d_degree g2) = N"
    "length (d_neighbours g2) = N" "d_size g2 = N"
    using dyn_inv_lengths[OF inv2] by simp_all
  have da: "d_degree g2 ! nat a = int ?ka" and db: "d_degree g2 ! nat b = int ?kb"
    using dyn_inv_at[OF inv2 a] dyn_inv_at[OF inv2 b] by simp_all
  have nab: "nat a \<noteq> nat b" using a b ab by simp
  let ?ra = "(d_neighbours g2 ! nat a)[?ka := b]" and ?rb = "(d_neighbours g2 ! nat b)[?kb := a]"
  let ?g3 = "g2\<lparr>d_neighbours := (d_neighbours g2)[nat a := ?ra]\<rparr>"
  let ?g4 = "?g3\<lparr>d_neighbours := (d_neighbours ?g3)[nat b := ?rb]\<rparr>"
  let ?g5 = "?g4\<lparr>d_degree := (d_degree ?g4)[nat a := int ?ka + 1]\<rparr>"
  let ?g6 = "?g5\<lparr>d_degree := (d_degree ?g5)[nat b := int ?kb + 1]\<rparr>"
  have p1: "put_neighbour g2 a b = Inr ?g3"
    using a lens da sa by (simp add: put_neighbour_def list_get_ok list_set_ok)
  have p2: "put_neighbour ?g3 b a = Inr ?g4"
    using b lens db sb nab by (simp add: put_neighbour_def list_get_ok list_set_ok)
  have i1: "incr_degree_dyn ?g4 a = Inr ?g5"
    using a lens da by (simp add: incr_degree_dyn_def list_get_ok list_set_ok)
  have i2: "incr_degree_dyn ?g5 b = Inr ?g6"
    using b lens db nab by (simp add: incr_degree_dyn_def list_get_ok list_set_ok)
  have res: "graph_add_railway junk g a b = Inr ?g6"
    unfolding graph_add_railway_def e1 bind_fault_Inr e2 p1 p2 i1 i2 ..
  have inv': "dyn_inv N (done @ [(a, b)]) ?g6"
    unfolding dyn_inv_def
  proof (intro conjI allI impI)
    fix v assume v: "v < N"
    have old: "d_degree g2 ! v = int (length (partners done (int v)))"
      "d_capacity g2 ! v = int (length (d_neighbours g2 ! v))"
      "0 < length (d_neighbours g2 ! v)"
      "length (partners done (int v)) \<le> length (d_neighbours g2 ! v)"
      "take (length (partners done (int v))) (d_neighbours g2 ! v) = partners done (int v)"
      using dyn_inv_at[OF inv2, of "int v"] v by simp_all
    consider (a) "v = nat a" | (b) "v = nat b" | (other) "v \<noteq> nat a" "v \<noteq> nat b" by blast
    then have "d_degree ?g6 ! v = int (length (partners (done @ [(a, b)]) (int v))) \<and>
          d_capacity ?g6 ! v = int (length (d_neighbours ?g6 ! v)) \<and>
          0 < length (d_neighbours ?g6 ! v) \<and>
          length (partners (done @ [(a, b)]) (int v)) \<le> length (d_neighbours ?g6 ! v) \<and>
          take (length (partners (done @ [(a, b)]) (int v))) (d_neighbours ?g6 ! v) =
            partners (done @ [(a, b)]) (int v)"
    proof cases
      case a
      then have va: "int v = a" using \<open>0 \<le> a\<close> by simp
      have pa: "partners (done @ [(a, b)]) a = partners done a @ [b]" using ab by simp
      show ?thesis unfolding va pa
        using a old lens nab sa ab take_update_last[OF sa, of b] va \<open>nat a < N\<close> \<open>nat b < N\<close>
        by (simp add: nth_list_update)
    next
      case b
      then have vb: "int v = b" using \<open>0 \<le> b\<close> by simp
      have pb: "partners (done @ [(a, b)]) b = partners done b @ [a]" using ab by simp
      show ?thesis unfolding vb pb
        using b old lens nab sb ab take_update_last[OF sb, of a] vb \<open>nat a < N\<close> \<open>nat b < N\<close>
        by (simp add: nth_list_update)
    next
      case other
      then have "int v \<noteq> a" "int v \<noteq> b" by auto
      then have "partners (done @ [(a, b)]) (int v) = partners done (int v)" by simp
      then show ?thesis using other old lens v by (simp add: nth_list_update)
    qed
    then show "d_degree ?g6 ! v = int (length (partners (done @ [(a, b)]) (int v)))"
      and "d_capacity ?g6 ! v = int (length (d_neighbours ?g6 ! v))"
      and "0 < length (d_neighbours ?g6 ! v)"
      and "length (partners (done @ [(a, b)]) (int v)) \<le> length (d_neighbours ?g6 ! v)"
      and "take (length (partners (done @ [(a, b)]) (int v))) (d_neighbours ?g6 ! v) =
            partners (done @ [(a, b)]) (int v)"
      by blast+
  qed (use lens in simp_all)
  show ?thesis using res inv' by blast
qed

section \<open>Graphs that represent a list of links\<close>

lemma partners_mem:
  "w \<in> set (partners ls v) \<longleftrightarrow> (v, w) \<in> set ls \<or> (w, v) \<in> set ls"
proof (induction ls v rule: partners.induct)
  case (1 v)
  then show ?case by simp
next
  case (2 a b ls v)
  have "w \<in> set (partners ((a, b) # ls) v) \<longleftrightarrow>
        (a = v \<and> w = b) \<or> (b = v \<and> w = a) \<or> w \<in> set (partners ls v)"
    by (simp add: conj_commute)
  also have "\<dots> \<longleftrightarrow> (a = v \<and> w = b) \<or> (b = v \<and> w = a) \<or>
        (v, w) \<in> set ls \<or> (w, v) \<in> set ls"
    using 2 by simp
  also have "\<dots> \<longleftrightarrow> (v, w) \<in> set ((a, b) # ls) \<or> (w, v) \<in> set ((a, b) # ls)"
    by (simp only: set_simps insert_iff prod.inject) blast
  finally show ?case .
qed

lemma partners_set:
  "set (partners ls v) = {b. (v, b) \<in> set ls} \<union> {a. (a, v) \<in> set ls}"
  using partners_mem[of _ ls v] by blast

lemma concat_singletons: "concat (map (\<lambda>i. [f i]) is) = map f is"
  by (induction "is") auto

lemma represents_adjacent:
  assumes "represents deg nb n ls" "0 \<le> v" "nat v < n"
  shows "adjacent deg nb v = partners ls v"
proof -
  let ?p = "partners ls v"
  have d: "deg v = Inr (int (length ?p))"
    and nbs: "\<forall>i<length ?p. nb v (int i) = Inr (?p ! i)"
    using assms unfolding represents_def by blast+
  have "adjacent deg nb v =
      concat (map (\<lambda>i. case nb v (int i) of Inl f \<Rightarrow> [] | Inr w \<Rightarrow> [w]) [0..<length ?p])"
    using d by (simp add: adjacent_def)
  also have "\<dots> = concat (map (\<lambda>i. [?p ! i]) [0..<length ?p])"
    using nbs by (intro arg_cong[where f = concat] map_cong) auto
  also have "\<dots> = map (\<lambda>i. ?p ! i) [0..<length ?p]" by (rule concat_singletons)
  also have "\<dots> = ?p" by (rule map_nth)
  finally show ?thesis .
qed

lemma links_within_partners:
  assumes "links_within n ls" "w \<in> set (partners ls v)"
  shows "0 \<le> w \<and> nat w < n"
proof -
  have "\<forall>e\<in>set ls. 0 \<le> fst e \<and> nat (fst e) < n \<and> 0 \<le> snd e \<and> nat (snd e) < n"
    using assms(1) by (auto simp: links_within_def list_all_iff)
  moreover have "(v, w) \<in> set ls \<or> (w, v) \<in> set ls"
    using assms(2) by (simp add: partners_mem)
  ultimately show ?thesis by fastforce
qed

lemma represents_wf:
  assumes rep: "represents deg nb n ls" and lw: "links_within n ls"
  shows "wf_graph deg nb n"
  unfolding wf_graph_def
proof
  fix u assume "u \<in> set [0..<n]"
  then have u: "(0::int) \<le> int u" "nat (int u) < n" by simp_all
  let ?p = "partners ls (int u)"
  have d: "deg (int u) = Inr (int (length ?p))"
    and nbs: "\<forall>i<length ?p. nb (int u) (int i) = Inr (?p ! i)"
    using rep u unfolding represents_def by blast+
  have "case nb (int u) (int i) of Inl f \<Rightarrow> False | Inr w \<Rightarrow> 0 \<le> w \<and> w < int n"
    if "i \<in> set [0..<length ?p]" for i
  proof -
    have i: "i < length ?p" using that by simp
    then have "?p ! i \<in> set ?p" by simp
    from links_within_partners[OF lw this] show ?thesis using nbs i by auto
  qed
  then show "case deg (int u) of
          Inl f \<Rightarrow> False
        | Inr d \<Rightarrow>
            (\<forall>i\<in>set [0..<nat d].
               case nb (int u) (int i) of
                 Inl f \<Rightarrow> False
               | Inr w \<Rightarrow> 0 \<le> w \<and> w < int n)"
    using d by simp
qed

section \<open>The adjacency-list program builds a graph that represents its links\<close>

lemma dyn_inv_represents:
  assumes "dyn_inv N ls g"
  shows "represents (degree_dyn g) (neighbour_dyn g) N ls"
  unfolding represents_def
proof (intro allI impI conjI)
  fix v assume v: "0 \<le> v \<and> nat v < N"
  then have v0: "0 \<le> v" and vN: "nat v < N" by simp_all
  note at = dyn_inv_at[OF assms v0 vN] and lens = dyn_inv_lengths[OF assms]
  show "degree_dyn g v = Inr (int (length (partners ls v)))"
    using v0 vN at(1) lens by (simp add: degree_dyn_def list_get_ok)
  fix i assume i: "i < length (partners ls v)"
  have "d_neighbours g ! nat v ! i = take (length (partners ls v)) (d_neighbours g ! nat v) ! i"
    using i by simp
  then have "d_neighbours g ! nat v ! i = partners ls v ! i" using at(5) by simp
  then show "neighbour_dyn g v (int i) = Inr (partners ls v ! i)"
    using v0 vN lens at(4) i by (simp add: neighbour_dyn_def list_get_ok)
qed

lemma add_airports_ok:
  assumes "dyn_inv N done g" "list_all (\<lambda>c. 1 \<le> c \<and> c < int N) airports"
  shows "\<exists>g'. add_airports junk airports g = Inr g' \<and>
           dyn_inv N (done @ map (\<lambda>c. (c - 1, int N - 1)) airports) g'"
  using assms
proof (induction airports arbitrary: "done" g)
  case Nil
  then show ?case by simp
next
  case (Cons c cs)
  have c: "1 \<le> c" "c < int N" and cs: "list_all (\<lambda>c. 1 \<le> c \<and> c < int N) cs"
    using Cons.prems(2) by simp_all
  have size: "d_size g = N" using dyn_inv_lengths[OF Cons.prems(1)] by simp
  have "\<exists>g1. graph_add_railway junk g (c - 1) (int N - 1) = Inr g1 \<and>
          dyn_inv N (done @ [(c - 1, int N - 1)]) g1"
    using c by (intro add_railway_ok[OF Cons.prems(1)]) simp_all
  then obtain g1 where g1: "graph_add_railway junk g (c - 1) (int N - 1) = Inr g1"
    and inv1: "dyn_inv N (done @ [(c - 1, int N - 1)]) g1" by blast
  from Cons.IH[OF inv1 cs] obtain g' where
    "add_airports junk cs g1 = Inr g'"
    "dyn_inv N ((done @ [(c - 1, int N - 1)]) @ map (\<lambda>c. (c - 1, int N - 1)) cs) g'" by blast
  then show ?case using g1 size by (simp add: graph_add_airport_def)
qed

lemma add_railways_ok:
  assumes "dyn_inv N done g"
    "list_all (\<lambda>(a, b). 1 \<le> a \<and> a \<le> int N \<and> 1 \<le> b \<and> b \<le> int N \<and> a \<noteq> b) edges"
  shows "\<exists>g'. add_railways junk edges g = Inr g' \<and>
           dyn_inv N (done @ map (\<lambda>(a, b). (a - 1, b - 1)) edges) g'"
  using assms
proof (induction edges arbitrary: "done" g)
  case Nil
  then show ?case by simp
next
  case (Cons e es)
  obtain a b where e: "e = (a, b)" by (cases e)
  have ab: "1 \<le> a" "a \<le> int N" "1 \<le> b" "b \<le> int N" "a \<noteq> b"
    and es: "list_all (\<lambda>(a, b). 1 \<le> a \<and> a \<le> int N \<and> 1 \<le> b \<and> b \<le> int N \<and> a \<noteq> b) es"
    using Cons.prems(2) e by simp_all
  have "\<exists>g1. graph_add_railway junk g (a - 1) (b - 1) = Inr g1 \<and>
          dyn_inv N (done @ [(a - 1, b - 1)]) g1"
    using ab by (intro add_railway_ok[OF Cons.prems(1)]) simp_all
  then obtain g1 where g1: "graph_add_railway junk g (a - 1) (b - 1) = Inr g1"
    and inv1: "dyn_inv N (done @ [(a - 1, b - 1)]) g1" by blast
  from Cons.IH[OF inv1 es] obtain g' where
    "add_railways junk es g1 = Inr g'"
    "dyn_inv N ((done @ [(a - 1, b - 1)]) @ map (\<lambda>(a, b). (a - 1, b - 1)) es) g'" by blast
  then show ?case using g1 e by simp
qed

section \<open>The first pass of \<^verbatim>\<open>main.c\<close> and the offsets\<close>

lemma array_get_ok: "0 \<le> i \<Longrightarrow> i < bound \<Longrightarrow> array_get bound a i = Inr (a (nat i))"
  by (simp add: array_get_def)

lemma array_set_ok:
  "0 \<le> i \<Longrightarrow> i < bound \<Longrightarrow> array_set bound a i v = Inr (a(nat i := v))"
  by (simp add: array_set_def)

lemma incr_degree_ok:
  "0 \<le> c \<Longrightarrow> c < 100002 \<Longrightarrow>
   incr_degree g c = Inr (g\<lparr>f_degrees := (f_degrees g)(nat c := f_degrees g (nat c) + 1)\<rparr>)"
  by (simp add: incr_degree_def array_get_ok array_set_ok MAX_CITIES_def)

lemma links_within_Cons:
  "links_within N ((a, b) # ls) \<longleftrightarrow>
   0 \<le> a \<and> nat a < N \<and> 0 \<le> b \<and> nat b < N \<and> links_within N ls"
  by (simp add: links_within_def)

lemma links_within_append:
  "links_within N (xs @ ys) \<longleftrightarrow> links_within N xs \<and> links_within N ys"
  by (simp add: links_within_def)

lemma partners_Cons_length:
  "0 \<le> a \<Longrightarrow> 0 \<le> b \<Longrightarrow>
   int (length (partners ((a, b) # ls) (int v))) =
   (if v = nat a then 1 else 0) + (if v = nat b then 1 else 0) +
   int (length (partners ls (int v)))"
  by auto

lemma count_edges_ok:
  assumes "links_within N ls" "N \<le> 100002"
  shows "\<exists>g'. count_edges ls g = Inr g' \<and> f_size g' = f_size g \<and>
           f_start g' = f_start g \<and> f_neighbours g' = f_neighbours g \<and>
           (\<forall>v. f_degrees g' v = f_degrees g v + int (length (partners ls (int v))))"
  using assms(1)
proof (induction ls arbitrary: g)
  case Nil
  then show ?case by simp
next
  case (Cons e ls)
  obtain a b where e: "e = (a, b)" by (cases e)
  have ab: "0 \<le> a" "nat a < N" "0 \<le> b" "nat b < N" and rest: "links_within N ls"
    using Cons.prems e by (simp_all add: links_within_Cons)
  have a': "a < 100002" and b': "b < 100002" using ab assms(2) by linarith+
  let ?g1 = "g\<lparr>f_degrees := (f_degrees g)(nat a := f_degrees g (nat a) + 1)\<rparr>"
  let ?g2 = "?g1\<lparr>f_degrees := (f_degrees ?g1)(nat b := f_degrees ?g1 (nat b) + 1)\<rparr>"
  have s1: "incr_degree g a = Inr ?g1" using ab a' by (simp add: incr_degree_ok)
  have s2: "incr_degree ?g1 b = Inr ?g2" using ab(3) b' by (rule incr_degree_ok)
  from Cons.IH[OF rest, of ?g2] obtain g' where
    g': "count_edges ls ?g2 = Inr g'" "f_size g' = f_size ?g2" "f_start g' = f_start ?g2"
    "f_neighbours g' = f_neighbours ?g2"
    and deg: "\<forall>v. f_degrees g' v = f_degrees ?g2 v + int (length (partners ls (int v)))"
    by blast
  have "count_edges (e # ls) g = Inr g'"
    unfolding e count_edges.simps s1 bind_fault_Inr s2 g'(1) ..
  moreover have "f_degrees g' v = f_degrees g v + int (length (partners (e # ls) (int v)))" for v
    unfolding e partners_Cons_length[OF ab(1,3)] using deg by simp
  ultimately show ?case using g' by simp
qed

lemma count_airports_edges:
  "count_airports airports g = count_edges (map (\<lambda>c. (0, c)) airports) g"
proof (induction airports arbitrary: g)
  case Nil
  then show ?case by simp
next
  case (Cons c cs)
  show ?case
  proof (cases "incr_degree g 0")
    case (Inl f)
    then show ?thesis by simp
  next
    case (Inr g1)
    then show ?thesis using Cons.IH by (cases "incr_degree g1 c") simp_all
  qed
qed

lemma insert_airports_edges:
  "insert_airports airports g = insert_edges (map (\<lambda>c. (0, c)) airports) g"
proof (induction airports arbitrary: g)
  case Nil
  then show ?case by simp
next
  case (Cons c cs)
  then show ?case by (cases "insert_edge g 0 c") simp_all
qed

lemma compute_offsets_ok:
  assumes "m \<le> 100002"
  shows "i \<le> m \<Longrightarrow>
         \<exists>g'. compute_offsets [i..<m] s g = Inr g' \<and> f_size g' = f_size g \<and>
           f_neighbours g' = f_neighbours g \<and>
           (\<forall>v. f_start g' v =
                (if i \<le> v \<and> v < m then s + (\<Sum>u\<in>{i..<v}. f_degrees g u) else f_start g v)) \<and>
           (\<forall>v. f_degrees g' v = (if i \<le> v \<and> v < m then 0 else f_degrees g v))"
proof (induction "m - i" arbitrary: i s g)
  case 0
  then have "[i..<m] = []" by simp
  then show ?case using 0 by simp
next
  case (Suc k)
  then have im: "i < m" and k: "k = m - Suc i" by simp_all
  have upt: "[i..<m] = i # [Suc i..<m]" using im by (simp add: upt_conv_Cons)
  have ib: "int i < 100002" using im assms by simp
  let ?g1 = "g\<lparr>f_start := (f_start g)(i := s), f_degrees := (f_degrees g)(i := 0)\<rparr>"
  have step: "compute_offsets (i # [Suc i..<m]) s g =
              compute_offsets [Suc i..<m] (s + f_degrees g i) ?g1"
    using ib by (simp add: array_get_ok array_set_ok MAX_CITIES_def)
  from Suc.hyps(1)[OF k, of "s + f_degrees g i" ?g1] im obtain g' where
    g': "compute_offsets [Suc i..<m] (s + f_degrees g i) ?g1 = Inr g'"
    "f_size g' = f_size ?g1" "f_neighbours g' = f_neighbours ?g1"
    and st: "\<forall>v. f_start g' v =
        (if Suc i \<le> v \<and> v < m then s + f_degrees g i + (\<Sum>u\<in>{Suc i..<v}. f_degrees ?g1 u)
         else f_start ?g1 v)"
    and dg: "\<forall>v. f_degrees g' v = (if Suc i \<le> v \<and> v < m then 0 else f_degrees ?g1 v)"
    by auto
  have start: "f_start g' v =
      (if i \<le> v \<and> v < m then s + (\<Sum>u\<in>{i..<v}. f_degrees g u) else f_start g v)" for v
  proof (cases "Suc i \<le> v \<and> v < m")
    case True
    have "(\<Sum>u\<in>{Suc i..<v}. f_degrees ?g1 u) = (\<Sum>u\<in>{Suc i..<v}. f_degrees g u)"
      by (intro sum.cong) auto
    moreover have "(\<Sum>u\<in>{i..<v}. f_degrees g u) = f_degrees g i + (\<Sum>u\<in>{Suc i..<v}. f_degrees g u)"
      using True by (simp add: sum.atLeast_Suc_lessThan)
    ultimately show ?thesis using st True by simp
  next
    case False
    then show ?thesis using st im by (cases "v = i") auto
  qed
  have degs: "f_degrees g' v = (if i \<le> v \<and> v < m then 0 else f_degrees g v)" for v
    using dg im by (cases "v = i") auto
  show ?case unfolding upt step using g' start degs by simp
qed

section \<open>The slices of the flat neighbour array\<close>

lemma offset_Suc: "offset ls (Suc v) = offset ls v + length (partners ls (int v))"
  by (simp add: offset_def)

lemma offset_mono: "u \<le> v \<Longrightarrow> offset ls u \<le> offset ls v"
proof (induction v)
  case 0
  then show ?case by simp
next
  case (Suc v)
  then show ?case by (cases "u = Suc v") (simp_all add: offset_Suc)
qed

lemma indicator_sum:
  assumes "0 \<le> a" "nat a < N"
  shows "(\<Sum>u<N. if a = int u then 1 else (0::nat)) = 1"
proof -
  have "(\<Sum>u<N. if a = int u then 1 else (0::nat)) = (\<Sum>u\<in>{..<N}. if u = nat a then 1 else 0)"
    using assms(1) by (intro sum.cong) auto
  also have "\<dots> = 1" using assms(2) by simp
  finally show ?thesis .
qed

lemma offset_total:
  "links_within N ls \<Longrightarrow> offset ls N = 2 * length ls"
proof (induction ls)
  case Nil
  then show ?case by (simp add: offset_def)
next
  case (Cons e ls)
  obtain a b where e: "e = (a, b)" by (cases e)
  have ab: "0 \<le> a" "nat a < N" "0 \<le> b" "nat b < N" and rest: "links_within N ls"
    using Cons.prems e by (simp_all add: links_within_Cons)
  have "length (partners ((a, b) # ls) (int u)) =
        (if a = int u then 1 else 0) + (if b = int u then 1 else 0) +
        length (partners ls (int u))" for u
    by simp
  then have "offset (e # ls) N =
      (\<Sum>u<N. if a = int u then 1 else (0::nat)) + (\<Sum>u<N. if b = int u then 1 else (0::nat)) +
      offset ls N"
    unfolding e offset_def by (simp only: sum.distrib)
  then show ?case using indicator_sum[OF ab(1,2)] indicator_sum[OF ab(3,4)] Cons.IH[OF rest]
    by simp
qed

lemma slot_bound:
  assumes "links_within N ls" "v < N" "j < length (partners ls (int v))"
  shows "offset ls v + j < 2 * length ls"
proof -
  have "offset ls v + j < offset ls (Suc v)" using assms(3) by (simp add: offset_Suc)
  also have "\<dots> \<le> offset ls N" using assms(2) by (intro offset_mono) simp
  finally show ?thesis using offset_total[OF assms(1)] by simp
qed

lemma slot_less:
  assumes "u < v" "i < length (partners ls (int u))"
  shows "offset ls u + i < offset ls v + j"
proof -
  have "offset ls u + i < offset ls (Suc u)" using assms(2) by (simp add: offset_Suc)
  also have "\<dots> \<le> offset ls v" using assms(1) by (intro offset_mono) simp
  finally show ?thesis by simp
qed

lemma slot_distinct:
  assumes "u \<noteq> v" "i < length (partners ls (int u))" "j < length (partners ls (int v))"
  shows "offset ls u + i \<noteq> offset ls v + j"
proof (cases "u < v")
  case True
  then show ?thesis using slot_less[OF True assms(2), of j] by simp
next
  case False
  then have "v < u" using assms(1) by simp
  then show ?thesis using slot_less[OF _ assms(3), of u i] by simp
qed

lemma partners_prefix_le:
  "length (partners done v) \<le> length (partners (done @ rest) v)"
  by simp

section \<open>The second pass of \<^verbatim>\<open>main.c\<close>\<close>

lemma flat_inv_at:
  assumes "flat_inv N links done g" "0 \<le> c" "nat c < N"
  shows "f_start g (nat c) = int (offset links (nat c))"
    and "f_degrees g (nat c) = int (length (partners done c))"
  using assms unfolding flat_inv_def by auto

lemma insert_edge_ok:
  assumes inv: "flat_inv N links done g"
    and links: "links = done @ (a, b) # rest"
    and lw: "links_within N links"
    and ab: "a \<noteq> b"
    and N: "N \<le> 100001"
    and size: "2 * length links \<le> 400002"
  shows "\<exists>g'. insert_edge g a b = Inr g' \<and> flat_inv N links (done @ [(a, b)]) g'"
proof -
  have rng: "0 \<le> a" "nat a < N" "0 \<le> b" "nat b < N"
    using lw unfolding links by (simp_all add: links_within_append links_within_Cons)
  let ?ka = "length (partners done a)" and ?kb = "length (partners done b)"
  let ?oa = "offset links (nat a)" and ?ob = "offset links (nat b)"
  have ka: "?ka < length (partners links (int (nat a)))"
    and kb: "?kb < length (partners links (int (nat b)))"
    using rng ab unfolding links by simp_all
  have kv: "length (partners done (int v)) \<le> length (partners links (int v))" for v
    unfolding links by simp
  have nab: "nat a \<noteq> nat b" using rng ab by simp
  have sa: "f_start g (nat a) = int ?oa" and da: "f_degrees g (nat a) = int ?ka"
    and sb: "f_start g (nat b) = int ?ob" and db: "f_degrees g (nat b) = int ?kb"
    using flat_inv_at[OF inv rng(1,2)] flat_inv_at[OF inv rng(3,4)] by simp_all
  have ba: "?oa + ?ka < 400002" and bb: "?ob + ?kb < 400002"
    using slot_bound[OF lw rng(2) ka] slot_bound[OF lw rng(4) kb] size by simp_all
  have ne: "?oa + ?ka \<noteq> ?ob + ?kb" using slot_distinct[OF nab ka kb] .
  have a': "a < 100002" and b': "b < 100002" using rng N by linarith+
  let ?ns = "(f_neighbours g)(?oa + ?ka := b, ?ob + ?kb := a)"
  let ?dg = "(f_degrees g)(nat a := int ?ka + 1, nat b := int ?kb + 1)"
  let ?g' = "g\<lparr>f_neighbours := ?ns, f_degrees := ?dg\<rparr>"
  have res: "insert_edge g a b = Inr ?g'"
    using rng a' b' sa da sb db ba bb nab
    by (simp add: insert_edge_def array_get_ok array_set_ok incr_degree_ok
        MAX_CITIES_def MAX_ROUTES_def nat_add_distrib)
  have inv': "flat_inv N links (done @ [(a, b)]) ?g'"
    unfolding flat_inv_def
  proof (intro conjI allI impI)
    show "f_size ?g' = N" using inv by (simp add: flat_inv_def)
  next
    fix v assume "v \<le> N"
    then show "f_start ?g' v = int (offset links v)" using inv by (simp add: flat_inv_def)
  next
    fix v assume v: "v < N"
    have old: "f_degrees g v = int (length (partners done (int v)))"
      using inv v by (simp add: flat_inv_def)
    show "f_degrees ?g' v = int (length (partners (done @ [(a, b)]) (int v)))"
      using old rng ab by auto
  next
    fix v j assume v: "v < N" and j: "j < length (partners (done @ [(a, b)]) (int v))"
    have old: "f_neighbours g (offset links v + i) = partners done (int v) ! i"
      if "i < length (partners done (int v))" for i
      using inv v that by (simp add: flat_inv_def)
    consider (a) "v = nat a" | (b) "v = nat b" | (other) "v \<noteq> nat a" "v \<noteq> nat b" by blast
    then show "f_neighbours ?g' (offset links v + j) = partners (done @ [(a, b)]) (int v) ! j"
    proof cases
      case a
      then have va: "int v = a" using rng by simp
      have p: "partners (done @ [(a, b)]) (int v) = partners done a @ [b]"
        using ab va by simp
      show ?thesis
      proof (cases "j < ?ka")
        case True
        have "offset links v + j \<noteq> ?ob + ?kb"
          using slot_distinct[OF nab _ kb, of j] True ka a by simp
        moreover have "offset links v + j \<noteq> ?oa + ?ka" using True a by simp
        ultimately show ?thesis unfolding p using old[of j] True va by (simp add: nth_append)
      next
        case False
        then have "j = ?ka" using j unfolding p by simp
        then show ?thesis unfolding p using a ne by (simp add: nth_append)
      qed
    next
      case b
      then have vb: "int v = b" using rng by simp
      have p: "partners (done @ [(a, b)]) (int v) = partners done b @ [a]"
        using ab vb by simp
      show ?thesis
      proof (cases "j < ?kb")
        case True
        have "offset links v + j \<noteq> ?oa + ?ka"
          using slot_distinct[OF nab[symmetric] _ ka, of j] True kb b by simp
        moreover have "offset links v + j \<noteq> ?ob + ?kb" using True b by simp
        ultimately show ?thesis unfolding p using old[of j] True vb by (simp add: nth_append)
      next
        case False
        then have "j = ?kb" using j unfolding p by simp
        then show ?thesis unfolding p using b by (simp add: nth_append)
      qed
    next
      case other
      then have "int v \<noteq> a" "int v \<noteq> b" by auto
      then have p: "partners (done @ [(a, b)]) (int v) = partners done (int v)" by simp
      have jd: "j < length (partners done (int v))" using j unfolding p .
      have jl: "j < length (partners links (int v))" using jd kv[of v] by simp
      have "offset links v + j \<noteq> ?oa + ?ka" "offset links v + j \<noteq> ?ob + ?kb"
        using slot_distinct[OF other(1) jl ka] slot_distinct[OF other(2) jl kb] by simp_all
      then show ?thesis unfolding p using old[OF jd] by simp
    qed
  qed
  show ?thesis using res inv' by blast
qed

end
